theory Spec2Isabelle
  imports Complex_Main "HOL-Library.Sublist"
begin

section \<open>Text primitives\<close>

text \<open>
  Python strings are sequences of code points.  The development models a text as a
  \<open>string\<close> whose characters are the code points 0 to 255 (Basic Latin and Latin-1), one
  \<open>char\<close> per code point, so \<open>length\<close> is Python's \<open>len\<close>.  On this range the
  character classes below are the ones Python's \<open>re\<close> and \<open>str\<close> use: \<open>\s\<close>,
  \<open>str.strip\<close> and \<open>str.split\<close> share one notion of white space, \<open>\d\<close> is the ASCII
  digits, and \<open>re.IGNORECASE\<close> compares the lower-case images of two characters.  The
  typographic quotation marks that the quote pattern of the verifier also accepts lie outside
  the range; inside it the only quote delimiter is the ASCII double quote.
\<close>

abbreviation (input) dq :: char where
  "dq \<equiv> CHR 0x22"

definition is_space :: "char \<Rightarrow> bool" where
  "is_space c = (let n = (of_char c :: nat) in
     (9 \<le> n \<and> n \<le> 13) \<or> (28 \<le> n \<and> n \<le> 32) \<or> n = 133 \<or> n = 160)"

definition is_digit :: "char \<Rightarrow> bool" where
  "is_digit c = (let n = (of_char c :: nat) in 48 \<le> n \<and> n \<le> 57)"

definition is_upper :: "char \<Rightarrow> bool" where
  "is_upper c = (let n = (of_char c :: nat) in
     (65 \<le> n \<and> n \<le> 90) \<or> (192 \<le> n \<and> n \<le> 222 \<and> n \<noteq> 215))"

text \<open>Upper-case letters of the range differ from their lower-case form in bit 5 only.\<close>

fun set_bit5 :: "char \<Rightarrow> char" where
  "set_bit5 (Char b0 b1 b2 b3 b4 b5 b6 b7) = Char b0 b1 b2 b3 b4 True b6 b7"

definition lower_char :: "char \<Rightarrow> char" where
  "lower_char c = (if is_upper c then set_bit5 c else c)"

text \<open>\<open>s.lower()\<close>\<close>

definition lower :: "string \<Rightarrow> string" where
  "lower s = map lower_char s"

text \<open>\<open>s.strip()\<close>\<close>

definition strip :: "string \<Rightarrow> string" where
  "strip s = rev (dropWhile is_space (rev (dropWhile is_space s)))"

text \<open>\<open>re.sub(r"\s+", " ", s)\<close>: every maximal run of white space becomes one space.\<close>

function collapse_ws :: "string \<Rightarrow> string" where
  "collapse_ws [] = []"
| "collapse_ws (c # cs) =
     (if is_space c then CHR '' '' # collapse_ws (dropWhile is_space cs)
      else c # collapse_ws cs)"
  by pat_completeness auto
termination
  by (relation "measure length") (auto simp: less_Suc_eq_le length_dropWhile_le)

text \<open>The maximal runs of characters of a class, left to right.\<close>

function runs :: "(char \<Rightarrow> bool) \<Rightarrow> string \<Rightarrow> string list" where
  "runs P [] = []"
| "runs P (c # cs) =
     (if P c then takeWhile P (c # cs) # runs P (dropWhile P cs) else runs P cs)"
  by pat_completeness auto
termination
  by (relation "measure (\<lambda>(P, s). length s)") (auto simp: less_Suc_eq_le length_dropWhile_le)

text \<open>\<open>s.split()\<close>: the maximal runs of characters that are not white space.\<close>

definition split_ws :: "string \<Rightarrow> string list" where
  "split_ws s = runs (\<lambda>c. \<not> is_space c) s"

text \<open>\<open>sep.join(xs)\<close>\<close>

fun join :: "string \<Rightarrow> string list \<Rightarrow> string" where
  "join sep [] = []"
| "join sep [x] = x"
| "join sep (x # y # ys) = x @ sep @ join sep (y # ys)"

text \<open>\<open>s[start:end]\<close> for \<open>0 \<le> start\<close> and \<open>0 \<le> end\<close>\<close>

definition slice :: "string \<Rightarrow> nat \<Rightarrow> nat \<Rightarrow> string" where
  "slice s start end = take (end - start) (drop start s)"

text \<open>The decimal digits of a natural number and \<open>str(n)\<close> for an integer.\<close>

fun show_nat :: "nat \<Rightarrow> string" where
  "show_nat n =
     (if n < 10 then [''0123456789'' ! n]
      else show_nat (n div 10) @ [''0123456789'' ! (n mod 10)])"

declare show_nat.simps [simp del]

definition show_int :: "int \<Rightarrow> string" where
  "show_int i = (if i < 0 then CHR ''-'' # show_nat (nat (- i)) else show_nat (nat i))"

text \<open>\<open>s.find(p)\<close> as an option (\<open>None\<close> for \<open>-1\<close>) and \<open>p in s\<close>.\<close>

fun find_sub :: "string \<Rightarrow> string \<Rightarrow> nat option" where
  "find_sub p [] = (if p = [] then Some 0 else None)"
| "find_sub p (c # cs) =
     (if prefix p (c # cs) then Some 0 else map_option Suc (find_sub p cs))"

definition contains :: "string \<Rightarrow> string \<Rightarrow> bool" where
  "contains p s = (find_sub p s \<noteq> None)"

text \<open>\<open>s.endswith(p)\<close>\<close>

definition endswith :: "string \<Rightarrow> string \<Rightarrow> bool" where
  "endswith s p = suffix p s"

text \<open>A literal of a pattern compiled with \<open>re.IGNORECASE\<close>, matched at the head of the text.\<close>

fun ci_prefix :: "string \<Rightarrow> string \<Rightarrow> bool" where
  "ci_prefix [] s = True"
| "ci_prefix (p # ps) [] = False"
| "ci_prefix (p # ps) (c # cs) = (lower_char c = lower_char p \<and> ci_prefix ps cs)"

text \<open>
  \<open>re.search\<close>: the match at the leftmost position where the pattern matches.  A pattern
  is given by its matcher at the head of a text, which returns the captured groups.
\<close>

fun first_match :: "(string \<Rightarrow> 'a option) \<Rightarrow> string \<Rightarrow> 'a option" where
  "first_match m [] = m []"
| "first_match m (c # cs) =
     (case m (c # cs) of Some r \<Rightarrow> Some r | None \<Rightarrow> first_match m cs)"

text \<open>The position of the leftmost case-insensitive occurrence of a literal.\<close>

fun find_ci :: "string \<Rightarrow> string \<Rightarrow> nat option" where
  "find_ci p [] = (if p = [] then Some 0 else None)"
| "find_ci p (c # cs) =
     (if ci_prefix p (c # cs) then Some 0 else map_option Suc (find_ci p cs))"

lemmas char_class_defs = is_space_def is_digit_def is_upper_def lower_char_def

section \<open>Segmenter: \<open>extract_questions_from_pdf\<close>\<close>

text \<open>
  The PDF is what \<open>pdfplumber\<close> makes of the upload: opening or reading it raises (\<open>Inl\<close>),
  or it yields for each page the extracted text, \<open>None\<close> when the page has none.
\<close>

type_synonym pdf = "string + string option list"

text \<open>\<open>full_text += text + "\n"\<close> for each page whose text is not empty.\<close>

fun full_text_of :: "string option list \<Rightarrow> string" where
  "full_text_of [] = []"
| "full_text_of (None # ps) = full_text_of ps"
| "full_text_of (Some t # ps) = (if t = [] then full_text_of ps else t @ ''\<newline>'' @ full_text_of ps)"

text \<open>
  \<open>re.sub(r"-\s*\n\s*", "", full_text)\<close>: a hyphen and the white space after it are
  removed when that white space holds a line break.
\<close>

function dehyphenate :: "string \<Rightarrow> string" where
  "dehyphenate [] = []"
| "dehyphenate (c # cs) =
     (if c = CHR ''-'' \<and> CHR ''\<newline>'' \<in> set (takeWhile is_space cs)
      then dehyphenate (dropWhile is_space cs)
      else c # dehyphenate cs)"
  by pat_completeness auto
termination
  by (relation "measure length") (auto simp: less_Suc_eq_le length_dropWhile_le)

text \<open>
  \<open>re.sub(r"([a-z,;])\s*\n\s*([a-z])", r"\1 \2", text)\<close>: between a lower-case letter, comma
  or semicolon and a lower-case letter, white space that holds a line break becomes one
  space.  The scan goes on after the second letter.
\<close>

definition is_lower_az :: "char \<Rightarrow> bool" where
  "is_lower_az c = (let n = (of_char c :: nat) in 97 \<le> n \<and> n \<le> 122)"

function join_wrapped :: "string \<Rightarrow> string" where
  "join_wrapped [] = []"
| "join_wrapped (c # cs) =
     (let w = takeWhile is_space cs; rest = dropWhile is_space cs
      in if (is_lower_az c \<or> c = CHR '','' \<or> c = CHR '';'') \<and> CHR ''\<newline>'' \<in> set w
            \<and> rest \<noteq> [] \<and> is_lower_az (hd rest)
         then c # CHR '' '' # hd rest # join_wrapped (tl rest)
         else c # join_wrapped cs)"
  by pat_completeness auto
termination
proof (relation "measure length")
  show "wf (measure length)" by simp
next
  fix c :: char and cs w rest :: string
  assume "rest = dropWhile is_space cs"
  then have "length (tl rest) \<le> length cs"
    using length_dropWhile_le [of is_space cs] by simp
  then show "(tl rest, c # cs) \<in> measure length" by simp
qed auto

text \<open>\<open>text.split('\n')\<close>\<close>

fun split_lines :: "string \<Rightarrow> string \<Rightarrow> string list" where
  "split_lines cur [] = [cur]"
| "split_lines cur (c # cs) =
     (if c = CHR ''\<newline>'' then cur # split_lines [] cs else split_lines (cur @ [c]) cs)"

text \<open>
  The prefix pattern
  \<open>^\s*(\(\s*reference:[^)]+\)|yes\s*no\s*citation:|yes\s*no:|citation:)\s*\<close> with
  \<open>re.IGNORECASE\<close>.  \<open>prefix_alt\<close> matches the group at the head of a text, the
  alternatives in their order, and returns the text after it; \<open>prefix_sub\<close> is
  \<open>prefix_re.sub("", line)\<close>.
\<close>

definition prefix_alt :: "string \<Rightarrow> string option" where
  "prefix_alt r =
     (let a1 = dropWhile is_space (drop 1 r);
          b1 = drop 10 a1;
          a2 = dropWhile is_space (drop 3 r);
          b2 = dropWhile is_space (drop 2 a2)
      in if ci_prefix ''('' r \<and> ci_prefix ''reference:'' a1
            \<and> takeWhile (\<lambda>x. x \<noteq> CHR '')'') b1 \<noteq> [] \<and> dropWhile (\<lambda>x. x \<noteq> CHR '')'') b1 \<noteq> []
         then Some (drop 1 (dropWhile (\<lambda>x. x \<noteq> CHR '')'') b1))
         else if ci_prefix ''yes'' r \<and> ci_prefix ''no'' a2 \<and> ci_prefix ''citation:'' b2
         then Some (drop 9 b2)
         else if ci_prefix ''yes'' r \<and> ci_prefix ''no:'' a2
         then Some (drop 3 a2)
         else if ci_prefix ''citation:'' r
         then Some (drop 9 r)
         else None)"

definition prefix_sub :: "string \<Rightarrow> string" where
  "prefix_sub line =
     (case prefix_alt (dropWhile is_space line) of
        None \<Rightarrow> line
      | Some rest \<Rightarrow> dropWhile is_space rest)"

definition cleaned_lines_of :: "string \<Rightarrow> string list" where
  "cleaned_lines_of full_text =
     filter (\<lambda>l. l \<noteq> [])
       (map (\<lambda>line. strip (prefix_sub line))
            (split_lines [] (join_wrapped (dehyphenate full_text))))"

text \<open>\<open>re.match(r"^\s*\d+\.", line)\<close>\<close>

definition is_enumerated :: "string \<Rightarrow> bool" where
  "is_enumerated line =
     (let r = dropWhile is_space line
      in takeWhile is_digit r \<noteq> [] \<and> prefix ''.'' (dropWhile is_digit r))"

text \<open>\<open>q_text\<close>, the candidate made of the accumulated lines.\<close>

definition q_text_of :: "string list \<Rightarrow> string" where
  "q_text_of current_question_lines =
     strip (collapse_ws (strip (join '' '' current_question_lines)))"

text \<open>
  The loop over the cleaned lines; the state is \<open>current_question_lines\<close> and
  \<open>questions\<close>.  The branch for an enumerated line only prints before it resets the
  accumulator.
\<close>

fun segment_loop :: "string list \<Rightarrow> string list \<Rightarrow> string list \<Rightarrow> string list" where
  "segment_loop [] current_question_lines questions = questions"
| "segment_loop (line # ls) current_question_lines questions =
     (let cur = current_question_lines @ [line]
      in if endswith line ''?''
         then (let q_text = q_text_of cur
               in segment_loop ls []
                    (if length (split_ws q_text) > 4 then questions @ [q_text] else questions))
         else if is_enumerated line \<and> cur \<noteq> []
         then segment_loop ls [line] questions
         else segment_loop ls cur questions)"

definition extract_questions_from_pdf :: "pdf \<Rightarrow> string list" where
  "extract_questions_from_pdf file_stream =
     (case file_stream of
        Inl e \<Rightarrow> []
      | Inr pages \<Rightarrow>
          let full_text = full_text_of pages
          in if full_text = [] then []
             else segment_loop (cleaned_lines_of full_text) [] [])"

text \<open>What the loop emits: a candidate that ends in a question mark and has more than four words.\<close>

definition is_question :: "string \<Rightarrow> bool" where
  "is_question q = (endswith q ''?'' \<and> 4 < length (split_ws q)
     \<and> (\<exists>cand. cand \<noteq> [] \<and> endswith (last cand) ''?'' \<and> q = q_text_of cand))"

section \<open>Snippet selector: \<open>_tokenize\<close> and \<open>_pick_snippets\<close>\<close>

text \<open>\<open>re.findall(r"[a-z0-9]+", (text or "").lower())\<close>\<close>

definition is_token_char :: "char \<Rightarrow> bool" where
  "is_token_char c = (let n = (of_char c :: nat) in (97 \<le> n \<and> n \<le> 122) \<or> (48 \<le> n \<and> n \<le> 57))"

definition tokenize :: "string \<Rightarrow> string list" where
  "tokenize text = runs is_token_char (lower text)"

definition stop :: "string list" where
  "stop = [''the'', ''a'', ''an'', ''and'', ''or'', ''of'', ''to'', ''in'', ''for'', ''on'', ''by'',
           ''with'', ''is'', ''are'', ''be'', ''as'', ''at'', ''that'', ''this'', ''it'', ''from'']"

text \<open>
  The phrases in the order in which the two nested loops add them to the set \<open>phrases\<close>:
  for \<open>n\<close> in \<open>(5, 4, 3)\<close> and \<open>i\<close> in \<open>range(0, max(0, len(q_toks_nostop) - n + 1))\<close>
  the phrase \<open>" ".join(q_toks_nostop[i:i + n])\<close>.
\<close>

definition phrase_seq :: "string list \<Rightarrow> string list" where
  "phrase_seq q_toks_nostop =
     concat (map (\<lambda>n. map (\<lambda>i. join '' '' (take n (drop i q_toks_nostop)))
                          [0 ..< length q_toks_nostop + 1 - n])
                 [5, 4, 3])"

text \<open>
  The loop \<open>for ph in phrases\<close> runs over a Python set of strings.  The order in which a set
  yields its elements is fixed by the hashes of the strings, which change from one process
  to the next, so the order is a parameter of the model: a function from the sequence of
  insertions to an enumeration of the set.
\<close>

type_synonym set_order = "string list \<Rightarrow> string list"

definition valid_set_order :: "set_order \<Rightarrow> string list \<Rightarrow> bool" where
  "valid_set_order ord xs = (distinct (ord xs) \<and> set (ord xs) = set xs)"

text \<open>The loop over the phrases; \<open>windows\<close> is the list built so far.\<close>

fun windows_loop :: "string \<Rightarrow> string \<Rightarrow> nat \<Rightarrow> string list \<Rightarrow> string list \<Rightarrow> string list" where
  "windows_loop content lc_content per_doc [] windows = windows"
| "windows_loop content lc_content per_doc (ph # phs) windows =
     (if ph = [] then windows_loop content lc_content per_doc phs windows
      else case find_sub ph lc_content of
        None \<Rightarrow> windows_loop content lc_content per_doc phs windows
      | Some idx \<Rightarrow>
          let start = idx - 400;
              end = min (length content) (idx + length ph + 500);
              windows' = windows @ [slice content start end]
          in if length windows' \<ge> per_doc then windows'
             else windows_loop content lc_content per_doc phs windows')"

text \<open>
  \<open>re.split(r"\n\s*\n", content)\<close>.  At a line break the pattern matches when the white
  space that follows holds another line break, and the match ends with the last line break
  of that white space; \<open>cur\<close> is the piece read so far.
\<close>

definition upto_last_newline :: "string \<Rightarrow> nat" where
  "upto_last_newline w = length w - length (takeWhile (\<lambda>x. x \<noteq> CHR ''\<newline>'') (rev w))"

function split_paras :: "string \<Rightarrow> string \<Rightarrow> string list" where
  "split_paras cur [] = [cur]"
| "split_paras cur (c # cs) =
     (if c = CHR ''\<newline>'' \<and> CHR ''\<newline>'' \<in> set (takeWhile is_space cs)
      then cur # split_paras [] (drop (upto_last_newline (takeWhile is_space cs)) cs)
      else split_paras (cur @ [c]) cs)"
  by pat_completeness auto
termination
  by (relation "measure (\<lambda>(cur, s). length s)") auto

text \<open>\<open>score(p)\<close>: how many of the distinct question tokens occur among the tokens of \<open>p\<close>.\<close>

definition score :: "string list \<Rightarrow> string \<Rightarrow> nat" where
  "score q_toks p = length (filter (\<lambda>t. t \<in> set (tokenize p)) (remdups q_toks))"

text \<open>
  \<open>_pick_snippets(content, question, per_doc, max_chars_per_snippet)\<close>, with the order of
  the phrase set as first argument.  \<open>sorted(..., key=score, reverse=True)\<close> is stable, as
  is sorting on the negated key.
\<close>

definition pick_snippets :: "set_order \<Rightarrow> string \<Rightarrow> string \<Rightarrow> nat \<Rightarrow> nat \<Rightarrow> string list" where
  "pick_snippets ord content question per_doc max_chars_per_snippet =
     (if content = [] then []
      else
        let lc_content = lower content;
            q_toks = tokenize question;
            q_toks_nostop = filter (\<lambda>t. t \<notin> set stop) q_toks;
            phrases = ord (phrase_seq q_toks_nostop);
            windows = windows_loop content lc_content per_doc phrases []
        in if windows \<noteq> [] then map (take max_chars_per_snippet) windows
           else
             let paras = filter (\<lambda>p. p \<noteq> []) (map strip (split_paras [] content))
             in if paras = [] then []
                else
                  let scored = sort_key (\<lambda>p. - int (score q_toks p)) paras
                  in map (take max_chars_per_snippet) (take per_doc scored))"

section \<open>Context assembler: \<open>find_relevant_context\<close>\<close>

text \<open>
  A stored page is a dictionary; each of the three fields read by the assembler, \<open>filename\<close>,
  \<open>page_number\<close> and \<open>content\<close>, may be missing.  The file name and the content are strings and the page number is an integer, as
  the population script stores them.
\<close>

record doc =
  f_filename :: "string option"
  f_page_number :: "int option"
  f_content :: "string option"

definition doc_filename :: "doc \<Rightarrow> string" where
  "doc_filename d = (case f_filename d of None \<Rightarrow> ''Unknown Document'' | Some f \<Rightarrow> f)"

definition doc_page_num :: "doc \<Rightarrow> string" where
  "doc_page_num d = (case f_page_number d of None \<Rightarrow> ''N/A'' | Some n \<Rightarrow> show_int n)"

definition doc_content :: "doc \<Rightarrow> string" where
  "doc_content d = (case f_content d of None \<Rightarrow> [] | Some c \<Rightarrow> c)"

text \<open>
  The text of the block of one page; the empty string when snippet retrieval is on and no
  snippet was picked.  \<open>use_snippets\<close> is the global \<open>USE_SNIPPET_RETRIEVAL\<close>.
\<close>

definition block_text :: "bool \<Rightarrow> set_order \<Rightarrow> string \<Rightarrow> doc \<Rightarrow> string" where
  "block_text use_snippets ord question d =
     (let fname = doc_filename d;
          page_num = doc_page_num d;
          content = doc_content d
      in if use_snippets then
           (let snippets = pick_snippets ord content question 3 800
            in if snippets \<noteq> [] then
                 join ''\<newline>\<newline>''
                   ([''--- START (Filename: '' @ fname @ '', Page: '' @ page_num @ '') ---'']
                    @ snippets
                    @ [''--- END (Filename: '' @ fname @ '', Page: '' @ page_num @ '') ---''])
                 @ ''\<newline>\<newline>''
               else [])
         else ''\<newline>\<newline>--- START (Filename: '' @ fname @ '', Page: '' @ page_num @ '') ---\<newline>\<newline>''
              @ content
              @ ''\<newline>\<newline>--- END (Filename: '' @ fname @ '', Page: '' @ page_num @ '') ---\<newline>\<newline>'')"

definition max_total :: nat where
  "max_total = 18000"

text \<open>
  The loop over the cursor.  The state is \<open>context_parts\<close> and \<open>total_len\<close>; the \<open>break\<close>
  returns the parts accepted so far.
\<close>

fun assemble_loop ::
  "bool \<Rightarrow> set_order \<Rightarrow> string \<Rightarrow> doc list \<Rightarrow> string list \<Rightarrow> nat \<Rightarrow> string list" where
  "assemble_loop use_snippets ord question [] context_parts total_len = context_parts"
| "assemble_loop use_snippets ord question (d # ds) context_parts total_len =
     (let bt = block_text use_snippets ord question d
      in if bt \<noteq> [] \<and> (total_len + length bt \<le> max_total \<or> context_parts = [])
         then assemble_loop use_snippets ord question ds (context_parts @ [bt]) (total_len + length bt)
         else if bt \<noteq> [] then context_parts
         else assemble_loop use_snippets ord question ds context_parts total_len)"

text \<open>
  The store is the text search of the collection: for a question it raises (\<open>Inl\<close> with the
  message of the exception) or yields the pages in the order of their relevance, of which
  \<open>limit(7)\<close> keeps the first seven.
\<close>

type_synonym store = "string \<Rightarrow> string + doc list"

definition context_parts_of :: "bool \<Rightarrow> set_order \<Rightarrow> string \<Rightarrow> doc list \<Rightarrow> string list" where
  "context_parts_of use_snippets ord question docs =
     assemble_loop use_snippets ord question (take 7 docs) [] 0"

definition find_relevant_context :: "bool \<Rightarrow> set_order \<Rightarrow> string \<Rightarrow> store \<Rightarrow> string" where
  "find_relevant_context use_snippets ord question db =
     (case db question of
        Inl e \<Rightarrow> ''Error searching database.''
      | Inr docs \<Rightarrow>
          let context = concat (context_parts_of use_snippets ord question docs)
          in if context = [] then ''No relevant policy documents found.'' else context)"

text \<open>
  The two markers of a block as the f-strings of the assembler write them, the text between
  them as the block pattern of the verifier reads it, and what precedes the START marker.
\<close>

definition start_marker :: "string \<Rightarrow> string \<Rightarrow> string" where
  "start_marker fname page = ''--- START (Filename: '' @ fname @ '', Page: '' @ page @ '') ---''"

definition block_inner :: "bool \<Rightarrow> set_order \<Rightarrow> string \<Rightarrow> doc \<Rightarrow> string" where
  "block_inner use_snippets ord question d =
     (if use_snippets
      then join ''\<newline>\<newline>'' (pick_snippets ord (doc_content d) question 3 800) @ ''\<newline>\<newline>''
      else doc_content d @ ''\<newline>\<newline>'')"

definition block_lead :: "bool \<Rightarrow> string" where
  "block_lead use_snippets = (if use_snippets then [] else ''\<newline>\<newline>'')"

text \<open>
  The pages whose blocks the loop accepts: the loop of \<open>find_relevant_context\<close> once more,
  collecting the pages in place of their block texts.
\<close>

fun accepted_loop ::
  "bool \<Rightarrow> set_order \<Rightarrow> string \<Rightarrow> doc list \<Rightarrow> doc list \<Rightarrow> nat \<Rightarrow> doc list" where
  "accepted_loop use_snippets ord question [] accepted total_len = accepted"
| "accepted_loop use_snippets ord question (d # ds) accepted total_len =
     (let bt = block_text use_snippets ord question d
      in if bt \<noteq> [] \<and> (total_len + length bt \<le> max_total \<or> accepted = [])
         then accepted_loop use_snippets ord question ds (accepted @ [d]) (total_len + length bt)
         else if bt \<noteq> [] then accepted
         else accepted_loop use_snippets ord question ds accepted total_len)"

definition accepted_docs :: "bool \<Rightarrow> set_order \<Rightarrow> string \<Rightarrow> doc list \<Rightarrow> doc list" where
  "accepted_docs use_snippets ord question docs =
     accepted_loop use_snippets ord question (take 7 docs) [] 0"

section \<open>Answer verifier: \<open>parse_gemini_response\<close>\<close>

text \<open>\<open>STATUS:\s*Met\<close> with \<open>re.IGNORECASE\<close>\<close>

definition m_status :: "string \<Rightarrow> unit option" where
  "m_status s =
     (if ci_prefix ''STATUS:'' s \<and> ci_prefix ''Met'' (dropWhile is_space (drop 7 s))
      then Some () else None)"

definition status_match :: "string \<Rightarrow> bool" where
  "status_match text = (first_match m_status text \<noteq> None)"

text \<open>\<open>EVIDENCE:(.*)\<close> with \<open>re.IGNORECASE | re.DOTALL\<close>: group 1 is the rest of the text.\<close>

definition m_evidence :: "string \<Rightarrow> string option" where
  "m_evidence s = (if ci_prefix ''EVIDENCE:'' s then Some (drop 9 s) else None)"

text \<open>
  The quote pattern, an opening quote, a lazy \<open>.*?\<close> with \<open>re.DOTALL\<close> and a closing
  quote: group 2 runs from the opening quote to the nearest closing quote.
\<close>

definition m_quote :: "string \<Rightarrow> string option" where
  "m_quote s =
     (case s of
        [] \<Rightarrow> None
      | c # rest \<Rightarrow>
          if c = dq \<and> dq \<in> set rest then Some (takeWhile (\<lambda>x. x \<noteq> dq) rest) else None)"

text \<open>
  \<open>\(\s*From\s+Filename:\s*([^,]+?)\s*,\s*Page:\s*(\d+)\s*\)\<close> with \<open>re.IGNORECASE\<close>.
  The name group cannot cross a comma, so the text between \<open>Filename:\<close> and the next comma
  is split into white space, the lazy group and white space; the caller strips the group, and
  the stripped group is the stripped text before the comma, which is what the matcher returns.
  The digit group is the maximal run of digits.
\<close>

definition m_cite :: "string \<Rightarrow> (string \<times> string) option" where
  "m_cite s =
     (case s of
        [] \<Rightarrow> None
      | c # r0 \<Rightarrow>
          let r1 = dropWhile is_space r0;
              r2 = drop 4 r1;
              r3 = dropWhile is_space r2;
              r4 = drop 9 r3;
              pre = takeWhile (\<lambda>x. x \<noteq> CHR '','') r4;
              r5 = dropWhile (\<lambda>x. x \<noteq> CHR '','') r4;
              r6 = dropWhile is_space (drop 1 r5);
              r7 = dropWhile is_space (drop 5 r6);
              digs = takeWhile is_digit r7;
              r8 = dropWhile is_space (dropWhile is_digit r7)
          in if c = CHR ''('' \<and> ci_prefix ''From'' r1
                \<and> r2 \<noteq> [] \<and> is_space (hd r2)
                \<and> ci_prefix ''Filename:'' r3
                \<and> pre \<noteq> [] \<and> r5 \<noteq> []
                \<and> ci_prefix ''Page:'' r6
                \<and> digs \<noteq> []
                \<and> r8 \<noteq> [] \<and> hd r8 = CHR '')''
             then Some (strip pre, digs) else None)"

text \<open>
  The block pattern
  \<open>--- START \(Filename: ([^,]+), Page: (\d+)\) ---\n\n([\s\S]*?)--- END \(Filename: \1, Page: \2\) ---\<close>
  with \<open>re.IGNORECASE\<close>.  The greedy name group is everything up to the next comma, the page
  group the maximal run of digits, and the lazy body ends at the first place where the END
  marker with the same name and page (compared without case) matches.  The matcher returns
  the three groups and the text after the match.
\<close>

definition end_marker :: "string \<Rightarrow> string \<Rightarrow> string" where
  "end_marker fname page = ''--- END (Filename: '' @ fname @ '', Page: '' @ page @ '') ---''"

definition m_block :: "string \<Rightarrow> (string \<times> string \<times> string \<times> string) option" where
  "m_block s =
     (let r1 = drop 21 s;
          fname = takeWhile (\<lambda>x. x \<noteq> CHR '','') r1;
          r2 = dropWhile (\<lambda>x. x \<noteq> CHR '','') r1;
          r3 = drop 8 r2;
          page = takeWhile is_digit r3;
          r4 = dropWhile is_digit r3;
          r5 = drop 7 r4
      in if ci_prefix ''--- START (Filename: '' s \<and> fname \<noteq> []
            \<and> ci_prefix '', Page: '' r2 \<and> page \<noteq> []
            \<and> ci_prefix '') ---\<newline>\<newline>'' r4
         then (case find_ci (end_marker fname page) r5 of
                 None \<Rightarrow> None
               | Some i \<Rightarrow>
                   Some (fname, page, take i r5,
                         drop (i + length (end_marker fname page)) r5))
         else None)"

lemma m_block_shorter:
  assumes "m_block s = Some (f, p, b, rest)"
  shows "length rest < length s"
proof -
  define t where "t = dropWhile is_digit (drop 8 (dropWhile (\<lambda>x. x \<noteq> CHR '','') (drop 21 s)))"
  from assms have pre: "ci_prefix ''--- START (Filename: '' s"
    by (auto simp: m_block_def Let_def split: if_splits option.splits)
  then have ne: "s \<noteq> []"
    by (cases s) auto
  have "length t \<le> length (drop 8 (dropWhile (\<lambda>x. x \<noteq> CHR '','') (drop 21 s)))"
    unfolding t_def by (rule length_dropWhile_le)
  also have "\<dots> \<le> length (dropWhile (\<lambda>x. x \<noteq> CHR '','') (drop 21 s))"
    by simp
  also have "\<dots> \<le> length (drop 21 s)"
    by (rule length_dropWhile_le)
  finally have t: "length t \<le> length s - 21"
    by simp
  from assms obtain k where "rest = drop k t"
    by (auto simp: m_block_def Let_def t_def split: if_splits option.splits)
  then have "length rest \<le> length t"
    by simp
  with t ne show ?thesis
    by (cases s) auto
qed

text \<open>\<open>block_re.finditer(context)\<close>: the successive non-overlapping matches, left to right.\<close>

function scan_blocks :: "string \<Rightarrow> (string \<times> string \<times> string) list" where
  "scan_blocks s =
     (case m_block s of
        Some (f, p, b, rest) \<Rightarrow> (f, p, b) # scan_blocks rest
      | None \<Rightarrow> (case s of [] \<Rightarrow> [] | c # cs \<Rightarrow> scan_blocks cs))"
  by pat_completeness auto
termination
  by (relation "measure length") (auto simp: m_block_shorter)

declare scan_blocks.simps [simp del]

text \<open>\<open>re.sub(r"\s+", " ", s).lower()\<close>\<close>

definition norm :: "string \<Rightarrow> string" where
  "norm s = lower (collapse_ws s)"

text \<open>
  One turn of the loop over the blocks.  The state is \<open>best_match_score\<close>, \<open>actual_fname\<close>
  and \<open>actual_page\<close>.  The score \<open>1.0 / (block_start + 1)\<close> is kept as an exact rational;
  for positions below \<open>2 ^ 26\<close> two scores compare as their floating-point values do.
\<close>

type_synonym cite_state = "rat \<times> string option \<times> string option"

definition block_step :: "string \<Rightarrow> cite_state \<Rightarrow> string \<times> string \<times> string \<Rightarrow> cite_state" where
  "block_step quote_text st blk =
     (case st of (best_match_score, actual_fname, actual_page) \<Rightarrow>
      case blk of (fname, page, block) \<Rightarrow>
        let norm_block = norm block;
            norm_quote = norm quote_text
        in if norm_quote \<noteq> [] \<and> contains norm_quote norm_block
           then (case find_sub norm_quote norm_block of
                   None \<Rightarrow> st
                 | Some block_start \<Rightarrow>
                     let score = 1 / (of_nat block_start + 1)
                     in if score > best_match_score then (score, Some fname, Some page) else st)
           else st)"

definition rederive :: "string \<Rightarrow> string \<Rightarrow> string option \<Rightarrow> string option \<Rightarrow> cite_state" where
  "rederive quote_text context found_fname found_page =
     foldl (block_step quote_text) (- 1, found_fname, found_page) (scan_blocks context)"

text \<open>Python's truth value of an optional string: \<open>None\<close> and the empty string are false.\<close>

fun truthy :: "string option \<Rightarrow> bool" where
  "truthy None = False"
| "truthy (Some s) = (s \<noteq> [])"

fun str_of :: "string option \<Rightarrow> string" where
  "str_of None = ''None''"
| "str_of (Some s) = s"

definition fmt_evidence :: "string \<Rightarrow> string \<Rightarrow> string \<Rightarrow> string" where
  "fmt_evidence fname page quote_text =
     ''(From Filename: '' @ fname @ '', Page: '' @ page @ '') '' @ [dq] @ quote_text @ [dq]"

definition quote_text_of :: "string \<Rightarrow> string" where
  "quote_text_of evidence_text =
     (case first_match m_quote evidence_text of Some q \<Rightarrow> strip q | None \<Rightarrow> [])"

text \<open>
  The function takes the response text and the context, both strings, and returns the pair
  of status and evidence.  On strings no step of the body raises, so the handler that
  returns the status \<open>Error\<close> is not entered.
\<close>

definition parse_gemini_response :: "string \<Rightarrow> string \<Rightarrow> string \<times> string" where
  "parse_gemini_response text context =
     (if \<not> status_match text then (''Not Met'', ''N/A'')
      else case first_match m_evidence text of
        None \<Rightarrow> (''Met'', ''STATUS was 'Met' but no EVIDENCE: section was found.'')
      | Some g \<Rightarrow>
          let evidence_text = strip g
          in if evidence_text = [] then (''Met'', ''Evidence section was found but was empty.'')
             else
               let quote_text = quote_text_of evidence_text;
                   cite_match = first_match m_cite evidence_text;
                   found_fname = map_option (\<lambda>g. strip (fst g)) cite_match;
                   found_page = map_option (\<lambda>g. strip (snd g)) cite_match;
                   st = (if quote_text \<noteq> [] \<and> context \<noteq> []
                         then rederive quote_text context found_fname found_page
                         else (- 1, found_fname, found_page));
                   actual_fname = fst (snd st);
                   actual_page = snd (snd st)
               in if quote_text \<noteq> [] \<and> truthy actual_fname \<and> truthy actual_page
                  then (''Met'', fmt_evidence (str_of actual_fname) (str_of actual_page) quote_text)
                  else if quote_text \<noteq> [] \<and> truthy found_fname \<and> truthy found_page
                  then (''Met'', fmt_evidence (str_of found_fname) (str_of found_page) quote_text)
                  else (''Met'', evidence_text))"

text \<open>
  The position at which a block holds the quote, both normalised, when the normalised quote
  is not empty: the test and the \<open>find\<close> of one turn of the loop.
\<close>

definition qpos :: "string \<Rightarrow> string \<times> string \<times> string \<Rightarrow> nat option" where
  "qpos quote_text blk =
     (if norm quote_text = [] then None else find_sub (norm quote_text) (norm (snd (snd blk))))"

section \<open>Question orchestrator\<close>

text \<open>
  The prompt of \<open>analyze_question_with_gemini\<close>: the f-string around the question and the
  first 12000 characters of the context.
\<close>

definition prompt_head :: string where
  "prompt_head =
     ''\<newline>''
     @ ''    You are a compliance auditor. Your task is to determine if a policy document meets a specific requirement.\<newline>''
     @ ''\<newline>''
     @ ''    Requirement (Question):\<newline>''
     @ ''    '' @ [dq]"

definition prompt_middle :: string where
  "prompt_middle =
     [dq] @ ''\<newline>''
     @ ''\<newline>''
     @ ''    Policy Document Excerpts (Context from Database):\<newline>''
     @ ''    '' @ [dq]"

definition prompt_tail :: string where
  "prompt_tail =
     [dq] @ ''\<newline>''
     @ ''\<newline>''
     @ ''    Instructions:\<newline>''
     @ ''    1. Read the Requirement and Context carefully. Pay attention to Filename and Page markers.\<newline>''
     @ ''    2. Determine if the Context *fully satisfies* the Requirement.\<newline>''
     @ ''    3. If the Requirement is vague or nonsensical, respond '' @ [dq] @ ''STATUS: Not Met'' @ [dq] @ ''.\<newline>''
     @ ''    4. Respond ONLY in the following exact format:\<newline>''
     @ ''        STATUS: Met|Not Met\<newline>''
     @ ''        EVIDENCE: (From Filename: <file>, Page: <page_num>) '' @ [dq] @ ''<exact quote>'' @ [dq] @ ''    [ONLY if Met]\<newline>''
     @ ''    5. If Met, quote the exact text and cite the filename AND page number.\<newline>''
     @ ''\<newline>''
     @ ''    Example Response (Met):\<newline>''
     @ ''    STATUS: Met\<newline>''
     @ ''    EVIDENCE: (From Filename: GG.1508_v2.pdf, Page: 10) '' @ [dq] @ ''For a retrospective request... no later than fourteen (14) calendar days...'' @ [dq] @ ''\<newline>''
     @ ''\<newline>''
     @ ''    Example Response (Not Met):\<newline>''
     @ ''    STATUS: Not Met\<newline>''
     @ ''\<newline>''
     @ ''    Begin analysis.\<newline>''
     @ ''    ''"

definition prompt_of :: "string \<Rightarrow> string \<Rightarrow> string" where
  "prompt_of question context =
     prompt_head @ question @ prompt_middle @ take 12000 context @ prompt_tail"

text \<open>
  The model handle is \<open>None\<close> when the model was not initialised; otherwise the call
  \<open>generate_content(prompt)\<close> with the reading of \<open>response.text\<close> raises (\<open>Inl\<close> with the
  message) or yields the text, which may be \<open>None\<close>.  The database handle raises at the
  lookup of the collection (\<open>Inl\<close>), the first line of \<open>find_relevant_context\<close>, outside
  its \<open>try\<close>, or is the store that \<open>find_relevant_context\<close> queries.
\<close>

type_synonym gemini = "(string \<Rightarrow> string + string option) option"

type_synonym database = "string + store"

text \<open>
  \<open>analyze_question_with_gemini\<close> returns the response text and the context, or raises
  (\<open>Inl\<close>) what the lookup of the collection raised.
\<close>

definition analyze_question_with_gemini ::
  "bool \<Rightarrow> set_order \<Rightarrow> gemini \<Rightarrow> string \<Rightarrow> database \<Rightarrow> string + string \<times> string" where
  "analyze_question_with_gemini use_snippets ord gemini_model question db =
     (case gemini_model of
        None \<Rightarrow> Inr (''Error: Gemini model not initialized.'', [])
      | Some generate_content \<Rightarrow>
          (case db of
             Inl e \<Rightarrow> Inl e
           | Inr collection \<Rightarrow>
               let context = find_relevant_context use_snippets ord question collection;
                   prompt = prompt_of question context
               in (case generate_content prompt of
                     Inl e \<Rightarrow> Inr (''Error: Could not analyze question. '' @ e, context)
                   | Inr None \<Rightarrow> Inr (''Error: AI generated an empty response.'', context)
                   | Inr (Some t) \<Rightarrow>
                       Inr (if t = [] then ''Error: AI generated an empty response.'' else t,
                            context))))"

record verdict =
  v_question :: string
  v_status :: string
  v_evidence :: string

text \<open>\<open>analyze_single_question_task\<close>, the closure inside \<open>upload_audit_pdf\<close>\<close>

definition analyze_single_question_task ::
  "bool \<Rightarrow> set_order \<Rightarrow> gemini \<Rightarrow> database \<Rightarrow> string \<Rightarrow> verdict" where
  "analyze_single_question_task use_snippets ord gemini_model db question =
     (case analyze_question_with_gemini use_snippets ord gemini_model question db of
        Inl e \<Rightarrow>
          \<lparr>v_question = question, v_status = ''Error'', v_evidence = ''Analysis failed: '' @ e\<rparr>
      | Inr (response, used_context) \<Rightarrow>
          (case parse_gemini_response response used_context of
             (status, evidence) \<Rightarrow>
               \<lparr>v_question = question, v_status = status, v_evidence = evidence\<rparr>))"

text \<open>
  \<open>list(executor.map(analyze_single_question_task, questions))\<close>: the pool runs the tasks
  side by side and \<open>executor.map\<close> yields their results in the order of the questions.  A
  task shares no state with another, so the list is the task mapped over the questions.
\<close>

definition analyze_questions ::
  "bool \<Rightarrow> set_order \<Rightarrow> gemini \<Rightarrow> database \<Rightarrow> string list \<Rightarrow> verdict list" where
  "analyze_questions use_snippets ord gemini_model db questions =
     map (analyze_single_question_task use_snippets ord gemini_model db) questions"

text \<open>
  \<open>upload_audit_pdf\<close>.  The request holds the part \<open>file\<close> or not; the part has a file
  name and a stream.  \<open>mongo_client\<close> is \<open>None\<close> when the connection failed at start-up,
  otherwise \<open>get_database\<close> gives the database handle.  The result is the error with its
  HTTP status, or the verdicts.  No step inside the \<open>try\<close> of the route raises: the
  segmenter and the tasks catch what they raise.
\<close>

definition upload_audit_pdf ::
  "bool \<Rightarrow> set_order \<Rightarrow> gemini \<Rightarrow> database option \<Rightarrow> (string \<times> pdf) option
     \<Rightarrow> string \<times> nat + verdict list" where
  "upload_audit_pdf use_snippets ord gemini_model mongo_client file =
     (case file of
        None \<Rightarrow> Inl (''No file part'', 400)
      | Some (file_name, file_stream) \<Rightarrow>
          if file_name = [] then Inl (''No selected file'', 400)
          else (case mongo_client of
                  None \<Rightarrow> Inl (''Database not connected'', 500)
                | Some db \<Rightarrow>
                    (case gemini_model of
                       None \<Rightarrow> Inl (''Gemini model not initialized'', 500)
                     | Some generate_content \<Rightarrow>
                         let questions = extract_questions_from_pdf file_stream
                         in if questions = [] then Inl (''Could not extract questions.'', 400)
                            else Inr (analyze_questions use_snippets ord gemini_model db
                                        questions))))"

text \<open>
  A block as the scanner reads it back, and as text: the START marker, two line breaks, the
  block text, the END marker and two line breaks.  The block pattern reads a block back when
  its file name is not empty and holds no comma, its page is a non-empty run of digits, and
  its END marker does not match in the block text before the END marker itself.
\<close>

definition render_block :: "string \<times> string \<times> string \<Rightarrow> string" where
  "render_block blk =
     (case blk of (fname, page, block) \<Rightarrow>
        start_marker fname page @ ''\<newline>\<newline>'' @ block @ end_marker fname page @ ''\<newline>\<newline>'')"

definition readable_block :: "string \<times> string \<times> string \<Rightarrow> bool" where
  "readable_block blk =
     (case blk of (fname, page, block) \<Rightarrow>
        fname \<noteq> [] \<and> CHR '','' \<notin> set fname \<and> page \<noteq> [] \<and> (\<forall>c\<in>set page. is_digit c)
        \<and> find_ci (end_marker fname page) (block @ end_marker fname page) = Some (length block))"

text \<open>
  A page whose block the block pattern can read back: a file name that is not empty and
  holds no comma, a page number that is present and not negative, and a block text in which
  the END marker of the block does not match before the END marker itself.
\<close>

definition scannable :: "bool \<Rightarrow> set_order \<Rightarrow> string \<Rightarrow> doc \<Rightarrow> bool" where
  "scannable use_snippets ord question d =
     (doc_filename d \<noteq> [] \<and> CHR '','' \<notin> set (doc_filename d)
      \<and> (case f_page_number d of None \<Rightarrow> False | Some n \<Rightarrow> 0 \<le> n)
      \<and> find_ci (end_marker (doc_filename d) (doc_page_num d))
           (block_inner use_snippets ord question d @ end_marker (doc_filename d) (doc_page_num d))
         = Some (length (block_inner use_snippets ord question d)))"

section \<open>Properties of the verifier\<close>

lemma block_step_qpos:
  "block_step q st (f, p, b) =
     (case qpos q (f, p, b) of
        None \<Rightarrow> st
      | Some k \<Rightarrow> if 1 / (of_nat k + 1) > fst st then (1 / (of_nat k + 1), Some f, Some p) else st)"
  by (cases st) (auto simp: block_step_def qpos_def contains_def Let_def split: option.splits)

lemma foldl_block_step_no_hit:
  "\<forall>x\<in>set bs. qpos q x = None \<Longrightarrow> foldl (block_step q) st bs = st"
proof (induction bs arbitrary: st)
  case Nil
  then show ?case by simp
next
  case (Cons x bs)
  obtain f p b where x: "x = (f, p, b)" by (cases x)
  from Cons.prems have "qpos q (f, p, b) = None" by (simp add: x)
  then have "block_step q st x = st" by (simp add: x block_step_qpos)
  with Cons show ?case by simp
qed

lemma score_less: "(1 / (of_nat j + 1) > (1 / (of_nat k + 1) :: rat)) = (j < k)"
  by (simp add: field_simps)

lemma foldl_block_step_later:
  "\<forall>x\<in>set bs. \<forall>j. qpos q x = Some j \<longrightarrow> k \<le> j \<Longrightarrow>
   foldl (block_step q) (1 / (of_nat k + 1), af, ap) bs = (1 / (of_nat k + 1), af, ap)"
proof (induction bs)
  case Nil
  then show ?case by simp
next
  case (Cons x bs)
  obtain f p b where x: "x = (f, p, b)" by (cases x)
  have "block_step q (1 / (of_nat k + 1), af, ap) x = (1 / (of_nat k + 1), af, ap)"
  proof (cases "qpos q (f, p, b)")
    case None
    then show ?thesis by (simp add: x block_step_qpos)
  next
    case (Some j)
    with Cons.prems have "k \<le> j" by (simp add: x)
    then have "\<not> (1 / (of_nat j + 1) > (1 / (of_nat k + 1) :: rat))"
      by (simp add: score_less)
    with Some show ?thesis by (simp add: x block_step_qpos)
  qed
  with Cons show ?case by simp
qed

lemma foldl_block_step_earlier:
  "\<forall>x\<in>set bs. \<forall>j. qpos q x = Some j \<longrightarrow> k < j \<Longrightarrow>
   1 / (of_nat k + 1) > fst st \<Longrightarrow>
   1 / (of_nat k + 1) > fst (foldl (block_step q) st bs)"
proof (induction bs arbitrary: st)
  case Nil
  then show ?case by simp
next
  case (Cons x bs)
  obtain f p b where x: "x = (f, p, b)" by (cases x)
  have "1 / (of_nat k + 1) > fst (block_step q st x)"
  proof (cases "qpos q (f, p, b)")
    case None
    with Cons.prems show ?thesis by (simp add: x block_step_qpos)
  next
    case (Some j)
    with Cons.prems have "k < j" by (simp add: x)
    then have "(1 / (of_nat j + 1) :: rat) < 1 / (of_nat k + 1)"
      by (simp add: score_less)
    with Some Cons.prems show ?thesis by (auto simp add: x block_step_qpos)
  qed
  with Cons.IH [of "block_step q st x"] Cons.prems show ?case by simp
qed

lemma rederive_select:
  assumes scan: "scan_blocks context = pre @ (F, P, B) # post"
    and hit: "qpos q (F, P, B) = Some k"
    and pre: "\<forall>x\<in>set pre. \<forall>j. qpos q x = Some j \<longrightarrow> k < j"
    and post: "\<forall>x\<in>set post. \<forall>j. qpos q x = Some j \<longrightarrow> k \<le> j"
  shows "rederive q context ff fp = (1 / (of_nat k + 1), Some F, Some P)"
proof -
  let ?s = "foldl (block_step q) (- 1, ff, fp) pre"
  have "(- 1 :: rat) < 1 / (of_nat k + 1)"
    by (rule less_le_trans [of _ 0]) simp_all
  with foldl_block_step_earlier [OF pre, of "(- 1, ff, fp)"]
  have lt: "1 / (of_nat k + 1) > fst ?s" by simp
  have "block_step q ?s (F, P, B) = (1 / (of_nat k + 1), Some F, Some P)"
    using hit lt by (simp add: block_step_qpos)
  then show ?thesis
    using foldl_block_step_later [OF post]
    by (simp add: rederive_def scan)
qed

lemma exists_earliest:
  assumes "\<exists>x\<in>set bs. qpos q x \<noteq> None"
  shows "\<exists>pre x post k. bs = pre @ x # post \<and> qpos q x = Some k
     \<and> (\<forall>y\<in>set pre. \<forall>j. qpos q y = Some j \<longrightarrow> k < j)
     \<and> (\<forall>y\<in>set post. \<forall>j. qpos q y = Some j \<longrightarrow> k \<le> j)"
proof -
  define k where "k = (LEAST j. \<exists>x\<in>set bs. qpos q x = Some j)"
  from assms have ex: "\<exists>j. \<exists>x\<in>set bs. qpos q x = Some j" by auto
  then have kP: "\<exists>x\<in>set bs. qpos q x = Some k"
    unfolding k_def by (rule LeastI_ex)
  have kmin: "k \<le> j" if "x \<in> set bs" "qpos q x = Some j" for x j
    unfolding k_def using that by (auto intro: Least_le)
  from split_list_first_prop [OF kP]
  obtain pre x post where bs: "bs = pre @ x # post" and x: "qpos q x = Some k"
    and first: "\<forall>y\<in>set pre. qpos q y \<noteq> Some k" by blast
  have "\<forall>y\<in>set pre. \<forall>j. qpos q y = Some j \<longrightarrow> k < j"
  proof (intro ballI allI impI)
    fix y j assume y: "y \<in> set pre" and j: "qpos q y = Some j"
    then have "k \<le> j" using kmin [of y j] by (simp add: bs)
    moreover have "j \<noteq> k" using first y j by auto
    ultimately show "k < j" by simp
  qed
  moreover have "\<forall>y\<in>set post. \<forall>j. qpos q y = Some j \<longrightarrow> k \<le> j"
  proof (intro ballI allI impI)
    fix y j assume "y \<in> set post" and "qpos q y = Some j"
    then show "k \<le> j" using kmin [of y j] by (simp add: bs)
  qed
  ultimately show ?thesis using bs x by blast
qed

lemma m_block_groups:
  assumes "m_block s = Some (f, p, b, rest)"
  shows "f \<noteq> [] \<and> CHR '','' \<notin> set f \<and> p \<noteq> [] \<and> (\<forall>c\<in>set p. is_digit c)"
proof -
  from assms have f: "f = takeWhile (\<lambda>x. x \<noteq> CHR '','') (drop 21 s)" and "f \<noteq> []"
    and p: "\<exists>t. p = takeWhile is_digit t" and "p \<noteq> []"
    by (auto simp: m_block_def Let_def split: if_splits option.splits)
  moreover have "CHR '','' \<notin> set f"
    unfolding f by (auto dest: set_takeWhileD)
  moreover have "\<forall>c\<in>set p. is_digit c"
    using p by (auto dest: set_takeWhileD)
  ultimately show ?thesis by simp
qed

lemma scan_blocks_None: "m_block (c # cs) = None \<Longrightarrow> scan_blocks (c # cs) = scan_blocks cs"
  by (simp add: scan_blocks.simps [of "c # cs"])

lemma scan_blocks_Some:
  "m_block s = Some (f, p, b, rest) \<Longrightarrow> scan_blocks s = (f, p, b) # scan_blocks rest"
  by (simp add: scan_blocks.simps [of s])

lemma scan_blocks_Nil [simp]: "scan_blocks [] = []"
  by (simp add: scan_blocks.simps [of "[]"] m_block_def)

lemma scan_blocks_groups:
  "(f, p, b) \<in> set (scan_blocks s) \<Longrightarrow>
     f \<noteq> [] \<and> CHR '','' \<notin> set f \<and> p \<noteq> [] \<and> (\<forall>c\<in>set p. is_digit c)"
proof (induction "length s" arbitrary: s rule: less_induct)
  case less
  show ?case
  proof (cases "m_block s")
    case None
    show ?thesis
    proof (cases s)
      case Nil
      with less.prems show ?thesis by simp
    next
      case (Cons c cs)
      with None less.prems have "(f, p, b) \<in> set (scan_blocks cs)"
        by (simp add: scan_blocks_None)
      with less.hyps [of cs] Cons show ?thesis by simp
    qed
  next
    case (Some r)
    obtain f' p' b' rest where r: "r = (f', p', b', rest)" by (cases r)
    from less.prems Some r have "(f, p, b) = (f', p', b') \<or> (f, p, b) \<in> set (scan_blocks rest)"
      by (simp add: scan_blocks_Some)
    then show ?thesis
    proof
      assume "(f, p, b) = (f', p', b')"
      with m_block_groups [of s f' p' b' rest] Some r show ?thesis by simp
    next
      assume "(f, p, b) \<in> set (scan_blocks rest)"
      moreover have "length rest < length s"
        using Some r by (simp add: m_block_shorter)
      ultimately show ?thesis using less.hyps [of rest] by simp
    qed
  qed
qed

lemma collapse_ws_Nil [simp]: "(collapse_ws s = []) = (s = [])"
  by (cases s) auto

lemma norm_Nil [simp]: "(norm s = []) = (s = [])"
  by (simp add: norm_def lower_def)

lemma quote_text_of_Nil [simp]: "quote_text_of [] = []"
  by (simp add: quote_text_of_def m_quote_def)

lemma parse_rederived:
  assumes st: "status_match text"
    and ev: "first_match m_evidence text = Some g"
    and q: "quote_text_of (strip g) \<noteq> []"
    and sel: "rederive (quote_text_of (strip g)) context
                (map_option (\<lambda>g. strip (fst g)) (first_match m_cite (strip g)))
                (map_option (\<lambda>g. strip (snd g)) (first_match m_cite (strip g)))
              = (sc, Some f, Some p)"
    and ne: "context \<noteq> []" "f \<noteq> []" "p \<noteq> []"
  shows "parse_gemini_response text context = (''Met'', fmt_evidence f p (quote_text_of (strip g)))"
proof -
  from q have "strip g \<noteq> []" by auto
  with st ev q sel ne show ?thesis
    by (simp add: parse_gemini_response_def Let_def)
qed

lemma contains_qpos:
  "q \<noteq> [] \<Longrightarrow> contains (norm q) (norm b) = (qpos q (f, p, b) \<noteq> None)"
  by (simp add: qpos_def contains_def)

lemma first_match_quote:
  "dq \<notin> set xs \<Longrightarrow> dq \<in> set ys \<Longrightarrow>
   first_match m_quote (xs @ dq # ys) = Some (takeWhile (\<lambda>x. x \<noteq> dq) ys)"
  by (induction xs) (auto simp: m_quote_def)

lemma strip_framed:
  "\<not> is_space a \<Longrightarrow> \<not> is_space z \<Longrightarrow> strip (a # xs @ [z]) = a # xs @ [z]"
  by (simp add: strip_def)

lemma strip_leading: "is_space c \<Longrightarrow> strip (c # s) = strip s"
  by (simp add: strip_def)

text \<open>
  Claim C1, as the code has it.  When the status is Met, the evidence section holds a
  non-empty quote and some block that the scanner finds in the context holds the quote (both
  sides with runs of white space collapsed and in lower case), the evidence returned is the
  formatted citation of a scanned block that holds the quote.  (When no scanned block holds
  the quote the verdict is still Met and the quote is returned with the citation the model
  claimed, or inside the raw evidence text.)
\<close>

theorem C1_rederived_quote_in_block:
  assumes st: "status_match text"
    and ev: "first_match m_evidence text = Some g"
    and q: "q = quote_text_of (strip g)" "q \<noteq> []"
    and hit: "\<exists>x\<in>set (scan_blocks context). contains (norm q) (norm (snd (snd x)))"
  shows "\<exists>f p b. (f, p, b) \<in> set (scan_blocks context) \<and> contains (norm q) (norm b)
           \<and> parse_gemini_response text context = (''Met'', fmt_evidence f p q)"
proof -
  from hit q have "\<exists>x\<in>set (scan_blocks context). qpos q x \<noteq> None"
    by (auto simp: qpos_def contains_def)
  from exists_earliest [OF this]
  obtain pre x post k where scan: "scan_blocks context = pre @ x # post"
    and k: "qpos q x = Some k"
    and pre: "\<forall>y\<in>set pre. \<forall>j. qpos q y = Some j \<longrightarrow> k < j"
    and post: "\<forall>y\<in>set post. \<forall>j. qpos q y = Some j \<longrightarrow> k \<le> j"
    by blast
  obtain f p b where x: "x = (f, p, b)" by (cases x)
  have mem: "(f, p, b) \<in> set (scan_blocks context)"
    by (simp add: scan x)
  then have wf: "f \<noteq> []" "p \<noteq> []"
    using scan_blocks_groups [of f p b "context"] by simp_all
  have ctx: "context \<noteq> []"
    using scan by auto
  have "rederive q context ff fp = (1 / (of_nat k + 1), Some f, Some p)" for ff fp
    using scan k pre post unfolding x by (rule rederive_select)
  then have "parse_gemini_response text context = (''Met'', fmt_evidence f p q)"
    using parse_rederived [OF st ev _ _ ctx wf] q by simp
  moreover have "contains (norm q) (norm b)"
    using k q by (simp add: x qpos_def contains_def split: if_splits)
  ultimately show ?thesis using mem by blast
qed

theorem C1_rederived_quote_in_block_witness:
  "\<exists>f p b. (f, p, b) \<in> set (scan_blocks
        ''--- START (Filename: F.pdf, Page: 7) ---\<newline>\<newline>Claims are paid in 30 days.\<newline>\<newline>--- END (Filename: F.pdf, Page: 7) ---\<newline>\<newline>'')
     \<and> contains (norm ''paid in 30'') (norm b)
     \<and> parse_gemini_response
         (''STATUS: Met\<newline>EVIDENCE: (From Filename: G.pdf, Page: 1) '' @ [dq] @ ''paid in 30'' @ [dq])
         ''--- START (Filename: F.pdf, Page: 7) ---\<newline>\<newline>Claims are paid in 30 days.\<newline>\<newline>--- END (Filename: F.pdf, Page: 7) ---\<newline>\<newline>''
       = (''Met'', fmt_evidence f p ''paid in 30'')"
proof (rule C1_rederived_quote_in_block)
  show "status_match (''STATUS: Met\<newline>EVIDENCE: (From Filename: G.pdf, Page: 1) '' @ [dq] @ ''paid in 30'' @ [dq])"
    by code_simp
  show "first_match m_evidence
          (''STATUS: Met\<newline>EVIDENCE: (From Filename: G.pdf, Page: 1) '' @ [dq] @ ''paid in 30'' @ [dq])
        = Some ('' (From Filename: G.pdf, Page: 1) '' @ [dq] @ ''paid in 30'' @ [dq])"
    by code_simp
  show "''paid in 30'' = quote_text_of (strip ('' (From Filename: G.pdf, Page: 1) '' @ [dq] @ ''paid in 30'' @ [dq]))"
    by code_simp
  show "''paid in 30'' \<noteq> []"
    by simp
  show "\<exists>x\<in>set (scan_blocks
        ''--- START (Filename: F.pdf, Page: 7) ---\<newline>\<newline>Claims are paid in 30 days.\<newline>\<newline>--- END (Filename: F.pdf, Page: 7) ---\<newline>\<newline>'').
      contains (norm ''paid in 30'') (norm (snd (snd x)))"
    by code_simp
qed

text \<open>
  Claim C1 as stated fails: the quote of this Met verdict occurs nowhere in the context, and
  the evidence returned is the formatted citation and quote, with the citation the model
  claimed.
\<close>

theorem C1_counterexample:
  "parse_gemini_response
     (''STATUS: Met\<newline>EVIDENCE: (From Filename: G.pdf, Page: 1) '' @ [dq] @ ''refunds are issued'' @ [dq])
     ''--- START (Filename: F.pdf, Page: 7) ---\<newline>\<newline>Claims are paid in 30 days.\<newline>\<newline>--- END (Filename: F.pdf, Page: 7) ---\<newline>\<newline>''
   = (''Met'', ''(From Filename: G.pdf, Page: 1) '' @ [dq] @ ''refunds are issued'' @ [dq])
   \<and> \<not> contains (norm ''refunds are issued'')
        (norm ''--- START (Filename: F.pdf, Page: 7) ---\<newline>\<newline>Claims are paid in 30 days.\<newline>\<newline>--- END (Filename: F.pdf, Page: 7) ---\<newline>\<newline>'')"
  by code_simp

lemma citation_override:
  assumes resp: "text = ''STATUS: Met\<newline>EVIDENCE: (From Filename: '' @ G @ '', Page: 1) '' @ [dq] @ Q @ [dq]"
    and G: "dq \<notin> set G"
    and Q: "dq \<notin> set Q" "strip Q \<noteq> []"
    and scan: "scan_blocks context = pre @ (F, P, B) # post"
    and hit: "find_sub (norm (strip Q)) (norm B) = Some k"
    and pre: "\<forall>x\<in>set pre. \<forall>j. find_sub (norm (strip Q)) (norm (snd (snd x))) = Some j \<longrightarrow> k < j"
    and post: "\<forall>x\<in>set post. \<forall>j. find_sub (norm (strip Q)) (norm (snd (snd x))) = Some j \<longrightarrow> k \<le> j"
  shows "parse_gemini_response text context = (''Met'', fmt_evidence F P (strip Q))"
proof -
  let ?ev = "''(From Filename: '' @ G @ '', Page: 1) '' @ [dq] @ Q @ [dq]"
  have st: "status_match text"
    by (simp add: resp status_match_def m_status_def char_class_defs)
  have ev: "first_match m_evidence text = Some (CHR '' '' # ?ev)"
    by (simp add: resp m_evidence_def char_class_defs)
  have "strip (CHR '' '' # ?ev) = strip ?ev"
    by (rule strip_leading) (simp add: char_class_defs)
  also have "\<dots> = ?ev"
    using strip_framed [of "CHR ''(''" dq "''From Filename: '' @ G @ '', Page: 1) '' @ [dq] @ Q"]
    by (simp add: char_class_defs)
  finally have sev: "strip (CHR '' '' # ?ev) = ?ev" .
  have "first_match m_quote ((''(From Filename: '' @ G @ '', Page: 1) '') @ dq # (Q @ [dq]))
          = Some (takeWhile (\<lambda>x. x \<noteq> dq) (Q @ [dq]))"
    by (rule first_match_quote) (use G in simp_all)
  moreover have "takeWhile (\<lambda>x. x \<noteq> dq) (Q @ [dq]) = Q"
    using Q(1) by (simp add: takeWhile_append)
  ultimately have qt: "quote_text_of ?ev = strip Q"
    by (simp add: quote_text_of_def)
  have nq: "norm (strip Q) \<noteq> []"
    using Q(2) by simp
  have k: "qpos (strip Q) (F, P, B) = Some k"
    using hit nq by (simp add: qpos_def)
  have pre': "\<forall>x\<in>set pre. \<forall>j. qpos (strip Q) x = Some j \<longrightarrow> k < j"
    using pre nq by (simp add: qpos_def)
  have post': "\<forall>x\<in>set post. \<forall>j. qpos (strip Q) x = Some j \<longrightarrow> k \<le> j"
    using post nq by (simp add: qpos_def)
  have mem: "(F, P, B) \<in> set (scan_blocks context)"
    by (simp add: scan)
  then have wf: "F \<noteq> []" "P \<noteq> []"
    using scan_blocks_groups [of F P B "context"] by simp_all
  have ctx: "context \<noteq> []"
    using scan by auto
  have red: "rederive (strip Q) context ff fp = (1 / (of_nat k + 1), Some F, Some P)" for ff fp
    using scan k pre' post' by (rule rederive_select)
  have "parse_gemini_response text context
          = (''Met'', fmt_evidence F P (quote_text_of (strip (CHR '' '' # ?ev))))"
  proof (rule parse_rederived [OF st ev _ _ ctx wf])
    show "quote_text_of (strip (CHR '' '' # ?ev)) \<noteq> []"
      unfolding sev qt by (rule Q(2))
    show "rederive (quote_text_of (strip (CHR '' '' # ?ev))) context
            (map_option (\<lambda>g. strip (fst g)) (first_match m_cite (strip (CHR '' '' # ?ev))))
            (map_option (\<lambda>g. strip (snd g)) (first_match m_cite (strip (CHR '' '' # ?ev))))
          = (1 / (of_nat k + 1), Some F, Some P)"
      unfolding sev qt by (rule red)
  qed
  then show ?thesis
    unfolding sev qt .
qed


text \<open>
  Claim C2, as the code has it.  Let the response be \<open>STATUS: Met\<close>, a line break and
  \<open>EVIDENCE: (From Filename: G, Page: 1) "Q"\<close>, where \<open>G\<close> holds no double quote and
  \<open>Q\<close> is the quoted span (no double quote inside, not blank).  Let the block scanner of
  the verifier find in the context the block \<open>(F, P)\<close>, which it does only for a file name
  that is not empty and holds no comma and a page that is a run of digits, and let the
  normalised text of that block hold the normalised quote at position \<open>k\<close>, every earlier
  scanned block holding it only at a later position and every later one at no earlier
  position.  Then the status is Met and the evidence cites \<open>(F, P)\<close> with the quote,
  whatever \<open>G\<close> was: the scanned block with the earliest occurrence is selected, the first
  of them in the context when several share that position.
\<close>

theorem C2_citation_override:
  assumes "text = ''STATUS: Met\<newline>EVIDENCE: (From Filename: '' @ G @ '', Page: 1) '' @ [dq] @ Q @ [dq]"
    and "dq \<notin> set G"
    and "dq \<notin> set Q" "strip Q \<noteq> []"
    and "scan_blocks context = pre @ (F, P, B) # post"
    and "find_sub (norm (strip Q)) (norm B) = Some k"
    and "\<forall>x\<in>set pre. \<forall>j. find_sub (norm (strip Q)) (norm (snd (snd x))) = Some j \<longrightarrow> k < j"
    and "\<forall>x\<in>set post. \<forall>j. find_sub (norm (strip Q)) (norm (snd (snd x))) = Some j \<longrightarrow> k \<le> j"
  shows "parse_gemini_response text context = (''Met'', fmt_evidence F P (strip Q))"
  using assms by (rule citation_override)

theorem C2_citation_override_witness:
  "parse_gemini_response
     (''STATUS: Met\<newline>EVIDENCE: (From Filename: G.pdf, Page: 1) '' @ [dq] @ ''claims are paid'' @ [dq])
     (''--- START (Filename: A.pdf, Page: 2) ---\<newline>\<newline>Intro. Claims are paid.\<newline>\<newline>--- END (Filename: A.pdf, Page: 2) ---\<newline>\<newline>''
      @ ''--- START (Filename: F.pdf, Page: 7) ---\<newline>\<newline>Claims  are PAID in 30 days.\<newline>\<newline>--- END (Filename: F.pdf, Page: 7) ---\<newline>\<newline>'')
   = (''Met'', ''(From Filename: F.pdf, Page: 7) '' @ [dq] @ ''claims are paid'' @ [dq])"
proof -
  let ?C = "''--- START (Filename: A.pdf, Page: 2) ---\<newline>\<newline>Intro. Claims are paid.\<newline>\<newline>--- END (Filename: A.pdf, Page: 2) ---\<newline>\<newline>''
      @ ''--- START (Filename: F.pdf, Page: 7) ---\<newline>\<newline>Claims  are PAID in 30 days.\<newline>\<newline>--- END (Filename: F.pdf, Page: 7) ---\<newline>\<newline>''"
  let ?Q = "''claims are paid''"
  have s: "strip ?Q = ?Q"
    by code_simp
  have scan: "scan_blocks ?C = [(''A.pdf'', ''2'', ''Intro. Claims are paid.\<newline>\<newline>'')]
       @ (''F.pdf'', ''7'', ''Claims  are PAID in 30 days.\<newline>\<newline>'') # []"
    by code_simp
  have hit: "find_sub (norm (strip ?Q)) (norm ''Claims  are PAID in 30 days.\<newline>\<newline>'') = Some 0"
    by code_simp
  have a: "find_sub (norm (strip ?Q)) (norm ''Intro. Claims are paid.\<newline>\<newline>'') = Some 7"
    by code_simp
  have pre: "\<forall>x\<in>set [(''A.pdf'', ''2'', ''Intro. Claims are paid.\<newline>\<newline>'')].
      \<forall>j. find_sub (norm (strip ?Q)) (norm (snd (snd x))) = Some j \<longrightarrow> 0 < j"
    using a by simp
  have "parse_gemini_response
     (''STATUS: Met\<newline>EVIDENCE: (From Filename: '' @ ''G.pdf'' @ '', Page: 1) '' @ [dq] @ ?Q @ [dq]) ?C
     = (''Met'', fmt_evidence ''F.pdf'' ''7'' (strip ?Q))"
    by (rule C2_citation_override [OF refl _ _ _ scan hit pre]) (simp_all add: s)
  then show ?thesis
    by (simp add: s fmt_evidence_def)
qed

text \<open>
  Claim C2 as stated fails.  The assembler emits for the page 7 of the file
  \<open>Policy, v2.pdf\<close> a block with matching markers whose text holds the quote; the block
  pattern stops the file name at the comma, the scanner finds no block, and the evidence
  keeps the citation the model claimed.
\<close>

theorem C2_counterexample:
  "find_relevant_context True remdups ''Are claims paid by the plan?''
     (\<lambda>q. Inr [\<lparr>f_filename = Some ''Policy, v2.pdf'', f_page_number = Some 7,
                  f_content = Some ''Claims are paid.''\<rparr>])
   = ''--- START (Filename: Policy, v2.pdf, Page: 7) ---\<newline>\<newline>Claims are paid.\<newline>\<newline>--- END (Filename: Policy, v2.pdf, Page: 7) ---\<newline>\<newline>''
   \<and> contains (norm ''Claims are paid.'') (norm ''Claims are paid.\<newline>\<newline>'')
   \<and> scan_blocks
        ''--- START (Filename: Policy, v2.pdf, Page: 7) ---\<newline>\<newline>Claims are paid.\<newline>\<newline>--- END (Filename: Policy, v2.pdf, Page: 7) ---\<newline>\<newline>''
       = []
   \<and> parse_gemini_response
        (''STATUS: Met\<newline>EVIDENCE: (From Filename: G.pdf, Page: 1) '' @ [dq] @ ''Claims are paid.'' @ [dq])
        ''--- START (Filename: Policy, v2.pdf, Page: 7) ---\<newline>\<newline>Claims are paid.\<newline>\<newline>--- END (Filename: Policy, v2.pdf, Page: 7) ---\<newline>\<newline>''
       = (''Met'', ''(From Filename: G.pdf, Page: 1) '' @ [dq] @ ''Claims are paid.'' @ [dq])"
  by code_simp

text \<open>
  Claim C8.  When the status pattern \<open>STATUS:\s*Met\<close> (case-insensitive) is found nowhere in
  the response text, \<open>parse_gemini_response\<close> returns the status \<open>Not Met\<close> with the
  evidence \<open>N/A\<close>, whatever else the response and the context contain.
\<close>

theorem C8_not_met_default:
  assumes "\<not> status_match text"
  shows "parse_gemini_response text context = (''Not Met'', ''N/A'')"
  using assms by (simp add: parse_gemini_response_def)

theorem C8_not_met_default_witness:
  "\<not> status_match ''STATUS: Not Met\<newline>EVIDENCE: (From Filename: A.pdf, Page: 3) none''
   \<and> parse_gemini_response
         ''STATUS: Not Met\<newline>EVIDENCE: (From Filename: A.pdf, Page: 3) none''
         ''No relevant policy documents found.'' = (''Not Met'', ''N/A'')"
proof -
  have h: "\<not> status_match ''STATUS: Not Met\<newline>EVIDENCE: (From Filename: A.pdf, Page: 3) none''"
    by (simp add: status_match_def m_status_def char_class_defs)
  from h C8_not_met_default [OF h] show ?thesis
    by simp
qed

section \<open>Properties of the snippet selector and the assembler\<close>

lemma windows_loop_length:
  "length windows < per_doc \<Longrightarrow>
   length (windows_loop content lc per_doc phs windows) \<le> per_doc"
proof (induction phs arbitrary: windows)
  case Nil
  then show ?case by simp
next
  case (Cons ph phs)
  show ?case
  proof (cases "ph = []")
    case True
    with Cons show ?thesis by simp
  next
    case False
    show ?thesis
    proof (cases "find_sub ph lc")
      case None
      with False Cons show ?thesis by simp
    next
      case (Some idx)
      let ?w = "windows @ [slice content (idx - 400) (min (length content) (idx + length ph + 500))]"
      show ?thesis
      proof (cases "length ?w \<ge> per_doc")
        case True
        with Cons.prems False Some show ?thesis by (simp add: Let_def)
      next
        case ge: False
        then have "length ?w < per_doc" by simp
        from Cons.IH [OF this] False Some ge show ?thesis by (simp add: Let_def)
      qed
    qed
  qed
qed

text \<open>
  Claim C9.  For every content, question and order of the phrase set, and every
  \<open>per_doc\<close> of at least one (the default is 3), \<open>_pick_snippets\<close> returns at most
  \<open>per_doc\<close> snippets, each of length at most \<open>max_chars_per_snippet\<close>, and returns no
  snippet for the empty content.  Both branches, the phrase windows and the paragraphs, are
  covered by the one statement.
\<close>

theorem C9_snippet_bounds:
  assumes "0 < per_doc"
  shows "length (pick_snippets ord content question per_doc max_chars_per_snippet) \<le> per_doc
    \<and> (\<forall>s\<in>set (pick_snippets ord content question per_doc max_chars_per_snippet).
          length s \<le> max_chars_per_snippet)
    \<and> pick_snippets ord [] question per_doc max_chars_per_snippet = []"
proof -
  have "length (windows_loop content lc per_doc phs []) \<le> per_doc" for lc phs
    using assms by (simp add: windows_loop_length)
  then show ?thesis
    by (auto simp: pick_snippets_def Let_def)
qed

theorem C9_snippet_bounds_witness:
  "(0::nat) < 3
   \<and> pick_snippets remdups ''Scope.\<newline>\<newline>Emergency services are covered.\<newline>\<newline>Claims are paid.''
        ''Are emergency claims covered?'' 3 12
     = [''Emergency se'', ''Claims are p'', ''Scope.'']
   \<and> length (pick_snippets remdups ''Scope.\<newline>\<newline>Emergency services are covered.\<newline>\<newline>Claims are paid.''
        ''Are emergency claims covered?'' 3 12) \<le> 3"
proof -
  have v: "pick_snippets remdups ''Scope.\<newline>\<newline>Emergency services are covered.\<newline>\<newline>Claims are paid.''
        ''Are emergency claims covered?'' 3 12
     = [''Emergency se'', ''Claims are p'', ''Scope.'']"
    by code_simp
  have h: "(0::nat) < 3" by simp
  from C9_snippet_bounds [OF h, of remdups
      "''Scope.\<newline>\<newline>Emergency services are covered.\<newline>\<newline>Claims are paid.''"
      "''Are emergency claims covered?''" 12] v h
  show ?thesis by simp
qed

lemma assemble_loop_inv:
  assumes "tot = length (concat parts)"
    and "length (concat parts) \<le> max_total \<or> length parts \<le> 1"
  shows "\<exists>acc rest. assemble_loop u ord q ds parts tot = parts @ acc
     \<and> filter (\<lambda>b. b \<noteq> []) (map (block_text u ord q) ds) = acc @ rest
     \<and> (rest \<noteq> [] \<longrightarrow> parts @ acc \<noteq> []
           \<and> max_total < length (concat (parts @ acc)) + length (hd rest))
     \<and> (length (concat (parts @ acc)) \<le> max_total \<or> length (parts @ acc) \<le> 1)"
  using assms
proof (induction ds arbitrary: parts tot)
  case Nil
  then show ?case by simp
next
  case (Cons d ds)
  let ?bt = "block_text u ord q d"
  show ?case
  proof (cases "?bt = []")
    case True
    with Cons.IH [OF Cons.prems] show ?thesis by (simp add: Let_def)
  next
    case ne: False
    show ?thesis
    proof (cases "tot + length ?bt \<le> max_total \<or> parts = []")
      case True
      have 1: "tot + length ?bt = length (concat (parts @ [?bt]))"
        using Cons.prems by simp
      have 2: "length (concat (parts @ [?bt])) \<le> max_total \<or> length (parts @ [?bt]) \<le> 1"
        using True Cons.prems by auto
      from Cons.IH [OF 1 2] obtain acc rest where
        a: "assemble_loop u ord q ds (parts @ [?bt]) (tot + length ?bt) = (parts @ [?bt]) @ acc"
        and b: "filter (\<lambda>b. b \<noteq> []) (map (block_text u ord q) ds) = acc @ rest"
        and c: "rest \<noteq> [] \<longrightarrow> (parts @ [?bt]) @ acc \<noteq> []
           \<and> max_total < length (concat ((parts @ [?bt]) @ acc)) + length (hd rest)"
        and d: "length (concat ((parts @ [?bt]) @ acc)) \<le> max_total \<or> length ((parts @ [?bt]) @ acc) \<le> 1"
        by blast
      show ?thesis
      proof (intro exI conjI)
        show "assemble_loop u ord q (d # ds) parts tot = parts @ (?bt # acc)"
          using a ne True by (simp add: Let_def)
        show "filter (\<lambda>b. b \<noteq> []) (map (block_text u ord q) (d # ds)) = (?bt # acc) @ rest"
          using b ne by simp
        show "rest \<noteq> [] \<longrightarrow> parts @ ?bt # acc \<noteq> []
           \<and> max_total < length (concat (parts @ ?bt # acc)) + length (hd rest)"
          using c by simp
        show "length (concat (parts @ ?bt # acc)) \<le> max_total \<or> length (parts @ ?bt # acc) \<le> 1"
          using d by simp
      qed
    next
      case False
      show ?thesis
      proof (intro exI conjI)
        show "assemble_loop u ord q (d # ds) parts tot = parts @ []"
          using ne False by (simp add: Let_def)
        show "filter (\<lambda>b. b \<noteq> []) (map (block_text u ord q) (d # ds))
               = [] @ (?bt # filter (\<lambda>b. b \<noteq> []) (map (block_text u ord q) ds))"
          using ne by simp
        show "?bt # filter (\<lambda>b. b \<noteq> []) (map (block_text u ord q) ds) \<noteq> [] \<longrightarrow> parts @ [] \<noteq> []
           \<and> max_total < length (concat (parts @ []))
               + length (hd (?bt # filter (\<lambda>b. b \<noteq> []) (map (block_text u ord q) ds)))"
          using False Cons.prems by simp
        show "length (concat (parts @ [])) \<le> max_total \<or> length (parts @ []) \<le> 1"
          using Cons.prems by simp
      qed
    qed
  qed
qed

lemma length_concat_take:
  "length (concat (take n xs)) \<le> length (concat xs)"
proof -
  have "concat xs = concat (take n xs) @ concat (drop n xs)"
    by (metis append_take_drop_id concat_append)
  then show ?thesis by simp
qed

text \<open>
  Claim C5.  When the store yields pages, the context returned is at most 18000 characters
  long or is the single block that was accepted; the blocks accepted up to any point after
  the first are together at most 18000 characters long; and the accepted blocks are a prefix
  of the non-empty blocks in rank order, the first block left out being one that would have
  taken the total over 18000.
\<close>

theorem C5_context_budget:
  assumes "db question = Inr docs"
  shows "(length (find_relevant_context u ord question db) \<le> 18000
          \<or> (\<exists>b. context_parts_of u ord question docs = [b]
                 \<and> find_relevant_context u ord question db = b))
    \<and> (\<forall>n. 1 < n \<and> n \<le> length (context_parts_of u ord question docs) \<longrightarrow>
          length (concat (take n (context_parts_of u ord question docs))) \<le> 18000)
    \<and> (\<exists>rest. filter (\<lambda>b. b \<noteq> []) (map (block_text u ord question) (take 7 docs))
                 = context_parts_of u ord question docs @ rest
          \<and> (rest \<noteq> [] \<longrightarrow> context_parts_of u ord question docs \<noteq> []
                \<and> 18000 < length (concat (context_parts_of u ord question docs)) + length (hd rest)))"
proof -
  let ?parts = "context_parts_of u ord question docs"
  from assemble_loop_inv [of 0 "[]" u ord question "take 7 docs"]
  obtain rest where f: "filter (\<lambda>b. b \<noteq> []) (map (block_text u ord question) (take 7 docs)) = ?parts @ rest"
    and r: "rest \<noteq> [] \<longrightarrow> ?parts \<noteq> [] \<and> max_total < length (concat ?parts) + length (hd rest)"
    and b: "length (concat ?parts) \<le> max_total \<or> length ?parts \<le> 1"
    by (auto simp: context_parts_of_def)
  have res: "find_relevant_context u ord question db
       = (if concat ?parts = [] then ''No relevant policy documents found.'' else concat ?parts)"
    using assms by (simp add: find_relevant_context_def Let_def)
  have 1: "length (find_relevant_context u ord question db) \<le> 18000
          \<or> (\<exists>b. ?parts = [b] \<and> find_relevant_context u ord question db = b)"
  proof (cases "concat ?parts = []")
    case True
    then show ?thesis by (simp add: res)
  next
    case False
    show ?thesis
    proof (cases "length (concat ?parts) \<le> max_total")
      case True
      with False show ?thesis by (simp add: res max_total_def)
    next
      case gt: False
      with b have "length ?parts \<le> 1" by simp
      moreover from False have "?parts \<noteq> []" by auto
      ultimately obtain x where "?parts = [x]"
        by (cases ?parts) auto
      with False show ?thesis by (simp add: res)
    qed
  qed
  have 2: "\<forall>n. 1 < n \<and> n \<le> length ?parts \<longrightarrow> length (concat (take n ?parts)) \<le> 18000"
  proof (intro allI impI)
    fix n assume n: "1 < n \<and> n \<le> length ?parts"
    with b have "length (concat ?parts) \<le> max_total" by auto
    with length_concat_take [of n ?parts] show "length (concat (take n ?parts)) \<le> 18000"
      by (simp add: max_total_def)
  qed
  from f r have 3: "\<exists>rest. filter (\<lambda>b. b \<noteq> []) (map (block_text u ord question) (take 7 docs)) = ?parts @ rest
          \<and> (rest \<noteq> [] \<longrightarrow> ?parts \<noteq> [] \<and> 18000 < length (concat ?parts) + length (hd rest))"
    by (auto simp: max_total_def)
  from 1 2 3 show ?thesis by blast
qed

theorem C5_context_budget_witness:
  "length (find_relevant_context True remdups ''Are emergency services covered by the plan?''
      (\<lambda>q. Inr [\<lparr>f_filename = Some ''A.pdf'', f_page_number = Some 3,
                      f_content = Some ''Emergency services covered at all times.''\<rparr>,
                   \<lparr>f_filename = Some ''B.pdf'', f_page_number = Some 9,
                      f_content = Some ''''\<rparr>])) \<le> 18000"
proof -
  let ?db = "\<lambda>q::string. (Inr [\<lparr>f_filename = Some ''A.pdf'', f_page_number = Some 3,
                      f_content = Some ''Emergency services covered at all times.''\<rparr>,
                   \<lparr>f_filename = Some ''B.pdf'', f_page_number = Some 9,
                      f_content = Some ''''\<rparr>] :: string + doc list)"
  have v: "find_relevant_context True remdups ''Are emergency services covered by the plan?'' ?db
     = ''--- START (Filename: A.pdf, Page: 3) ---\<newline>\<newline>Emergency services covered at all times.\<newline>\<newline>--- END (Filename: A.pdf, Page: 3) ---\<newline>\<newline>''"
    by code_simp
  from C5_context_budget [of ?db "''Are emergency services covered by the plan?''" _ True remdups, OF refl] v
  show ?thesis by simp
qed

section \<open>Assembler and verifier together\<close>

lemma join_framed:
  "xs \<noteq> [] \<Longrightarrow> join sep (a # xs @ [b]) = a @ sep @ join sep xs @ sep @ b"
proof (induction xs arbitrary: a)
  case Nil
  then show ?case by simp
next
  case (Cons x xs)
  show ?case
  proof (cases xs)
    case Nil
    then show ?thesis by simp
  next
    case (Cons y ys)
    with Cons.IH [of x] show ?thesis by simp
  qed
qed

lemma block_text_shape:
  "block_text u ord q d \<noteq> [] \<Longrightarrow>
   block_text u ord q d =
     block_lead u @ start_marker (doc_filename d) (doc_page_num d) @ ''\<newline>\<newline>''
       @ block_inner u ord q d @ end_marker (doc_filename d) (doc_page_num d) @ ''\<newline>\<newline>''"
  by (auto simp: block_text_def block_lead_def start_marker_def end_marker_def block_inner_def
      Let_def join_framed split: if_splits)

lemma accepted_loop_parts:
  "parts = map (block_text u ord q) acc \<Longrightarrow>
   assemble_loop u ord q ds parts tot = map (block_text u ord q) (accepted_loop u ord q ds acc tot)
   \<and> (\<forall>d\<in>set (accepted_loop u ord q ds acc tot). d \<in> set acc \<or> block_text u ord q d \<noteq> [])"
proof (induction ds arbitrary: parts acc tot)
  case Nil
  then show ?case by simp
next
  case (Cons d ds)
  let ?bt = "block_text u ord q d"
  have e: "(parts = []) = (acc = [])"
    using Cons.prems by simp
  have "parts @ [?bt] = map (block_text u ord q) (acc @ [d])"
    using Cons.prems by simp
  from Cons.IH [OF this, of "tot + length ?bt"] Cons.IH [OF Cons.prems, of tot] e Cons.prems
  show ?case
    by (auto simp: Let_def)
qed

lemma context_parts_accepted:
  "context_parts_of u ord q docs = map (block_text u ord q) (accepted_docs u ord q docs)"
  using accepted_loop_parts [of "[]" u ord q "[]" "take 7 docs" 0]
  by (simp add: context_parts_of_def accepted_docs_def)

lemma accepted_docs_nonempty:
  "d \<in> set (accepted_docs u ord q docs) \<Longrightarrow> block_text u ord q d \<noteq> []"
  using accepted_loop_parts [of "[]" u ord q "[]" "take 7 docs" 0]
  by (auto simp: accepted_docs_def)

lemma ci_prefix_self [simp]: "ci_prefix p (p @ r)"
  by (induction p) auto

lemma ci_prefix_length: "ci_prefix p s \<Longrightarrow> length p \<le> length s"
  by (induction p s rule: ci_prefix.induct) auto

lemma ci_prefix_append:
  "length p \<le> length xs \<Longrightarrow> ci_prefix p (xs @ ys) = ci_prefix p xs"
  by (induction p xs rule: ci_prefix.induct) auto

lemma find_ci_extend:
  "find_ci p (xs @ p) = Some (length xs) \<Longrightarrow> find_ci p (xs @ p @ rest) = Some (length xs)"
proof (induction xs)
  case Nil
  show ?case
    by (cases "p @ rest") (use ci_prefix_self [of p rest] in auto)
next
  case (Cons x xs)
  from Cons.prems have n: "\<not> ci_prefix p (x # xs @ p)"
    by (auto split: if_splits)
  with Cons.prems have "find_ci p (xs @ p) = Some (length xs)"
    by (auto split: if_splits)
  from Cons.IH [OF this] have ih: "find_ci p (xs @ p @ rest) = Some (length xs)" .
  have "length p \<le> length (x # xs @ p)" by simp
  from ci_prefix_append [OF this, of rest] n have "\<not> ci_prefix p (x # xs @ p @ rest)"
    by simp
  with ih show ?case by simp
qed

lemma digit_chars: "k < 10 \<Longrightarrow> is_digit (''0123456789'' ! k)"
proof -
  assume "k < 10"
  then have "k \<in> {0, 1, 2, 3, 4, 5, 6, 7, 8, 9}"
    by auto
  then show ?thesis
    by (auto simp: is_digit_def)
qed

lemma show_nat_digits: "show_nat n \<noteq> [] \<and> (\<forall>c\<in>set (show_nat n). is_digit c)"
proof (induction n rule: show_nat.induct)
  case (1 n)
  show ?case
  proof (cases "n < 10")
    case True
    then show ?thesis by (simp add: show_nat.simps [of n] digit_chars)
  next
    case False
    with 1 show ?thesis
      by (simp add: show_nat.simps [of n] digit_chars)
  qed
qed

lemma takeWhile_run:
  "\<forall>x\<in>set xs. P x \<Longrightarrow> \<not> P y \<Longrightarrow> takeWhile P (xs @ y # ys) = xs"
  by (induction xs) auto

lemma dropWhile_run:
  "\<forall>x\<in>set xs. P x \<Longrightarrow> \<not> P y \<Longrightarrow> dropWhile P (xs @ y # ys) = y # ys"
  by (induction xs) auto

lemma takeWhile_until: "c \<notin> set xs \<Longrightarrow> takeWhile (\<lambda>x. x \<noteq> c) (xs @ c # ys) = xs"
  by (induction xs) auto

lemma dropWhile_until: "c \<notin> set xs \<Longrightarrow> dropWhile (\<lambda>x. x \<noteq> c) (xs @ c # ys) = c # ys"
  by (induction xs) auto

lemma m_block_exact:
  assumes f: "f \<noteq> []" "CHR '','' \<notin> set f"
    and p: "p \<noteq> []" "\<forall>c\<in>set p. is_digit c"
    and clean: "find_ci (end_marker f p) (inner @ end_marker f p) = Some (length inner)"
  shows "m_block (start_marker f p @ ''\<newline>\<newline>'' @ inner @ end_marker f p @ rest)
           = Some (f, p, inner, rest)"
proof -
  let ?s = "start_marker f p @ ''\<newline>\<newline>'' @ inner @ end_marker f p @ rest"
  let ?t = "inner @ end_marker f p @ rest"
  have s: "?s = ''--- START (Filename: '' @ f @ '', Page: '' @ p @ '') ---\<newline>\<newline>'' @ ?t"
    by (simp add: start_marker_def)
  have 1: "ci_prefix ''--- START (Filename: '' ?s"
    unfolding s by (rule ci_prefix_self)
  have d1: "drop 21 ?s = f @ '', Page: '' @ p @ '') ---\<newline>\<newline>'' @ ?t"
    unfolding s by simp
  have tw: "takeWhile (\<lambda>x. x \<noteq> CHR '','') (f @ '', Page: '' @ p @ '') ---\<newline>\<newline>'' @ ?t) = f"
    using f(2) by (simp add: takeWhile_until)
  have dw: "dropWhile (\<lambda>x. x \<noteq> CHR '','') (f @ '', Page: '' @ p @ '') ---\<newline>\<newline>'' @ ?t)
              = '', Page: '' @ p @ '') ---\<newline>\<newline>'' @ ?t"
    using f(2) by (simp add: dropWhile_until)
  have 2: "ci_prefix '', Page: '' ('', Page: '' @ p @ '') ---\<newline>\<newline>'' @ ?t)"
    by (rule ci_prefix_self)
  have d2: "drop 8 ('', Page: '' @ p @ '') ---\<newline>\<newline>'' @ ?t) = p @ '') ---\<newline>\<newline>'' @ ?t"
    by simp
  have tp: "takeWhile is_digit (p @ '') ---\<newline>\<newline>'' @ ?t) = p"
    using p(2) by (simp add: takeWhile_run is_digit_def)
  have dp: "dropWhile is_digit (p @ '') ---\<newline>\<newline>'' @ ?t) = '') ---\<newline>\<newline>'' @ ?t"
    using p(2) by (simp add: dropWhile_run is_digit_def)
  have 3: "ci_prefix '') ---\<newline>\<newline>'' ('') ---\<newline>\<newline>'' @ ?t)"
    by (rule ci_prefix_self)
  have d3: "drop 7 ('') ---\<newline>\<newline>'' @ ?t) = ?t"
    by simp
  have fc: "find_ci (end_marker f p) ?t = Some (length inner)"
    using clean by (rule find_ci_extend)
  show ?thesis
    unfolding m_block_def Let_def d1 tw dw d2 tp dp d3 fc
    using 1 2 3 f(1) p(1) by simp
qed

lemma m_block_newline [simp]: "m_block (CHR ''\<newline>'' # s) = None"
  by (simp add: m_block_def char_class_defs)

lemma scan_blocks_skip_newlines: "scan_blocks (''\<newline>\<newline>'' @ s) = scan_blocks s"
  by (simp add: scan_blocks_None)

lemma scan_blocks_lead: "scan_blocks (block_lead u @ s) = scan_blocks s"
  by (simp add: block_lead_def scan_blocks_None)

lemma scannable_page:
  assumes "scannable u ord q d"
  shows "doc_page_num d \<noteq> [] \<and> (\<forall>c\<in>set (doc_page_num d). is_digit c)"
proof -
  from assms obtain n where "f_page_number d = Some n" "0 \<le> n"
    by (auto simp: scannable_def split: option.splits)
  then have "doc_page_num d = show_nat (nat n)"
    by (simp add: doc_page_num_def show_int_def)
  with show_nat_digits [of "nat n"] show ?thesis by simp
qed

lemma scan_blocks_block:
  assumes ne: "block_text u ord q d \<noteq> []" and ok: "scannable u ord q d"
  shows "scan_blocks (block_text u ord q d @ rest)
           = (doc_filename d, doc_page_num d, block_inner u ord q d) # scan_blocks rest"
proof -
  let ?f = "doc_filename d" and ?p = "doc_page_num d" and ?i = "block_inner u ord q d"
  have m: "m_block (start_marker ?f ?p @ ''\<newline>\<newline>'' @ ?i @ end_marker ?f ?p @ (''\<newline>\<newline>'' @ rest))
             = Some (?f, ?p, ?i, ''\<newline>\<newline>'' @ rest)"
    using ok scannable_page [OF ok] by (intro m_block_exact) (simp_all add: scannable_def)
  have "block_text u ord q d @ rest
          = block_lead u @ (start_marker ?f ?p @ ''\<newline>\<newline>'' @ ?i @ end_marker ?f ?p @ (''\<newline>\<newline>'' @ rest))"
    by (simp add: block_text_shape [OF ne])
  then have "scan_blocks (block_text u ord q d @ rest)
          = scan_blocks (start_marker ?f ?p @ ''\<newline>\<newline>'' @ ?i @ end_marker ?f ?p @ (''\<newline>\<newline>'' @ rest))"
    by (simp only: scan_blocks_lead)
  also have "\<dots> = (?f, ?p, ?i) # scan_blocks (''\<newline>\<newline>'' @ rest)"
    using m by (rule scan_blocks_Some)
  also have "scan_blocks (''\<newline>\<newline>'' @ rest) = scan_blocks rest"
    by (rule scan_blocks_skip_newlines)
  finally show ?thesis .
qed

lemma scan_blocks_concat:
  "\<forall>d\<in>set ds. block_text u ord q d \<noteq> [] \<and> scannable u ord q d \<Longrightarrow>
   scan_blocks (concat (map (block_text u ord q) ds))
     = map (\<lambda>d. (doc_filename d, doc_page_num d, block_inner u ord q d)) ds"
  by (induction ds) (simp_all add: scan_blocks_block)

lemma scan_blocks_sentinel: "scan_blocks ''No relevant policy documents found.'' = []"
  by code_simp

lemma m_block_na:
  assumes "CHR '','' \<notin> set f"
  shows "m_block (start_marker f ''N/A'' @ rest) = None"
proof -
  let ?s = "start_marker f ''N/A'' @ rest"
  have d1: "drop 21 ?s = f @ CHR '','' # '' Page: N/A) ---'' @ rest"
    by (simp add: start_marker_def)
  have dw: "dropWhile (\<lambda>x. x \<noteq> CHR '','') (f @ CHR '','' # '' Page: N/A) ---'' @ rest)
              = CHR '','' # '' Page: N/A) ---'' @ rest"
    using assms by (rule dropWhile_until)
  show ?thesis
    unfolding m_block_def Let_def d1 dw by (simp add: is_digit_def)
qed

lemma parse_no_hit:
  assumes "\<forall>x\<in>set (scan_blocks ctx). \<not> contains (norm q) (norm (snd (snd x)))"
  shows "rederive q ctx ff fp = (- 1, ff, fp)"
proof -
  have "\<forall>x\<in>set (scan_blocks ctx). qpos q x = None"
    using assms by (auto simp: qpos_def contains_def)
  then show ?thesis
    by (simp add: rederive_def foldl_block_step_no_hit)
qed

lemma parse_empty_context:
  assumes "status_match resp" "first_match m_evidence resp = Some g" "strip g \<noteq> []"
  shows "parse_gemini_response resp [] =
     (''Met'',
      case first_match m_cite (strip g) of
        None \<Rightarrow> strip g
      | Some (f, p) \<Rightarrow>
          if quote_text_of (strip g) \<noteq> [] \<and> strip f \<noteq> [] \<and> strip p \<noteq> []
          then fmt_evidence (strip f) (strip p) (quote_text_of (strip g))
          else strip g)"
  using assms
  by (cases "first_match m_cite (strip g)") (auto simp: parse_gemini_response_def Let_def)

text \<open>
  The scanner reads back a context made of readable blocks, and so the citation is
  overridden for a context written as such blocks: the conditions under which the scanner
  finds the block of a quote, stated on the text of the context.
\<close>

lemma scan_blocks_rendered:
  "\<forall>x\<in>set bs. readable_block x \<Longrightarrow> scan_blocks (concat (map render_block bs)) = bs"
proof (induction bs)
  case Nil
  then show ?case by simp
next
  case (Cons x bs)
  obtain f p b where x: "x = (f, p, b)" by (cases x)
  let ?rest = "concat (map render_block bs)"
  from Cons.prems have r: "readable_block (f, p, b)" by (simp add: x)
  then have "m_block (start_marker f p @ ''\<newline>\<newline>'' @ b @ end_marker f p @ (''\<newline>\<newline>'' @ ?rest))
               = Some (f, p, b, ''\<newline>\<newline>'' @ ?rest)"
    by (intro m_block_exact) (simp_all add: readable_block_def)
  then have "scan_blocks (start_marker f p @ ''\<newline>\<newline>'' @ b @ end_marker f p @ (''\<newline>\<newline>'' @ ?rest))
               = (f, p, b) # scan_blocks (''\<newline>\<newline>'' @ ?rest)"
    by (rule scan_blocks_Some)
  also have "scan_blocks (''\<newline>\<newline>'' @ ?rest) = scan_blocks ?rest"
    by (rule scan_blocks_skip_newlines)
  also have "scan_blocks ?rest = bs"
    using Cons by simp
  finally show ?case
    by (simp add: x render_block_def)
qed

lemma citation_override_rendered:
  assumes "text = ''STATUS: Met\<newline>EVIDENCE: (From Filename: '' @ G @ '', Page: 1) '' @ [dq] @ Q @ [dq]"
    and "dq \<notin> set G"
    and "dq \<notin> set Q" "strip Q \<noteq> []"
    and ctx: "context = concat (map render_block (pre @ (F, P, B) # post))"
    and rd: "\<forall>x\<in>set (pre @ (F, P, B) # post). readable_block x"
    and "find_sub (norm (strip Q)) (norm B) = Some k"
    and "\<forall>x\<in>set pre. \<forall>j. find_sub (norm (strip Q)) (norm (snd (snd x))) = Some j \<longrightarrow> k < j"
    and "\<forall>x\<in>set post. \<forall>j. find_sub (norm (strip Q)) (norm (snd (snd x))) = Some j \<longrightarrow> k \<le> j"
  shows "parse_gemini_response text context = (''Met'', fmt_evidence F P (strip Q))"
proof -
  have "scan_blocks context = pre @ (F, P, B) # post"
    unfolding ctx using rd by (rule scan_blocks_rendered)
  with assms show ?thesis
    by (intro citation_override [where pre = pre and post = post and k = k and G = G]) simp_all
qed

text \<open>
  Claim C4, as the code has it.  Every accepted block is the START marker, two line breaks,
  the block text and the END marker with the same file name and page, followed by two line
  breaks (and preceded by two when snippet retrieval is off).  When every accepted page can be
  read back (file name not empty and without comma, page number present and not negative, no
  earlier match of the block's END marker in the block text), the block scanner of the
  verifier finds in the returned context exactly the accepted blocks, in order, each with
  its file name, page and text.
\<close>

theorem C4_roundtrip:
  assumes db: "db question = Inr docs"
    and ok: "\<forall>d\<in>set (accepted_docs u ord question docs). scannable u ord question d"
  shows "context_parts_of u ord question docs
           = map (\<lambda>d. block_lead u @ start_marker (doc_filename d) (doc_page_num d) @ ''\<newline>\<newline>''
                        @ block_inner u ord question d
                        @ end_marker (doc_filename d) (doc_page_num d) @ ''\<newline>\<newline>'')
                 (accepted_docs u ord question docs)
     \<and> scan_blocks (find_relevant_context u ord question db)
           = map (\<lambda>d. (doc_filename d, doc_page_num d, block_inner u ord question d))
                 (accepted_docs u ord question docs)"
proof
  show "context_parts_of u ord question docs
           = map (\<lambda>d. block_lead u @ start_marker (doc_filename d) (doc_page_num d) @ ''\<newline>\<newline>''
                        @ block_inner u ord question d
                        @ end_marker (doc_filename d) (doc_page_num d) @ ''\<newline>\<newline>'')
                 (accepted_docs u ord question docs)"
    unfolding context_parts_accepted
    by (rule map_cong [OF refl]) (simp add: accepted_docs_nonempty block_text_shape)
next
  let ?acc = "accepted_docs u ord question docs"
  have all: "\<forall>d\<in>set ?acc. block_text u ord question d \<noteq> [] \<and> scannable u ord question d"
    using ok by (simp add: accepted_docs_nonempty)
  show "scan_blocks (find_relevant_context u ord question db)
           = map (\<lambda>d. (doc_filename d, doc_page_num d, block_inner u ord question d)) ?acc"
  proof (cases "concat (context_parts_of u ord question docs) = []")
    case True
    then have "?acc = []"
      using all by (cases ?acc) (auto simp: context_parts_accepted)
    with True db show ?thesis
      by (simp add: find_relevant_context_def scan_blocks_sentinel)
  next
    case False
    with db have "find_relevant_context u ord question db = concat (context_parts_of u ord question docs)"
      by (simp add: find_relevant_context_def del: concat_eq_Nil_conv)
    then have "find_relevant_context u ord question db = concat (map (block_text u ord question) ?acc)"
      by (simp only: context_parts_accepted)
    with scan_blocks_concat [OF all] show ?thesis by simp
  qed
qed

theorem C4_roundtrip_witness:
  "scan_blocks (find_relevant_context True remdups ''Are emergency services covered by the plan?''
      (\<lambda>q. Inr [\<lparr>f_filename = Some ''A.pdf'', f_page_number = Some 3,
                      f_content = Some ''Emergency services covered at all times.''\<rparr>,
                   \<lparr>f_filename = Some ''F.pdf'', f_page_number = Some 12,
                      f_content = Some ''Plan: covered claims.''\<rparr>]))
   = [(''A.pdf'', ''3'', ''Emergency services covered at all times.\<newline>\<newline>''),
      (''F.pdf'', ''12'', ''Plan: covered claims.\<newline>\<newline>'')]"
proof -
  let ?docs = "[\<lparr>f_filename = Some ''A.pdf'', f_page_number = Some 3,
                      f_content = Some ''Emergency services covered at all times.''\<rparr>,
                   \<lparr>f_filename = Some ''F.pdf'', f_page_number = Some 12,
                      f_content = Some ''Plan: covered claims.''\<rparr>]"
  let ?db = "\<lambda>q::string. (Inr ?docs :: string + doc list)"
  let ?q = "''Are emergency services covered by the plan?''"
  have ok: "\<forall>d\<in>set (accepted_docs True remdups ?q ?docs). scannable True remdups ?q d"
    by code_simp
  have v: "map (\<lambda>d. (doc_filename d, doc_page_num d, block_inner True remdups ?q d))
             (accepted_docs True remdups ?q ?docs)
           = [(''A.pdf'', ''3'', ''Emergency services covered at all times.\<newline>\<newline>''),
              (''F.pdf'', ''12'', ''Plan: covered claims.\<newline>\<newline>'')]"
    by code_simp
  from C4_roundtrip [of ?db ?q ?docs True remdups, OF refl ok] show ?thesis
    by (simp only: v)
qed

text \<open>
  Claim C4 as stated fails: for a page without page number the assembler emits one block,
  with \<open>Page: N/A\<close> on both markers, and the scanner finds no block in the context.
\<close>

theorem C4_counterexample:
  "context_parts_of True remdups ''Are emergency services covered by the plan?''
      [\<lparr>f_filename = Some ''B.pdf'', f_page_number = None,
         f_content = Some ''Emergency services covered at all times.''\<rparr>]
   = [''--- START (Filename: B.pdf, Page: N/A) ---\<newline>\<newline>Emergency services covered at all times.\<newline>\<newline>--- END (Filename: B.pdf, Page: N/A) ---\<newline>\<newline>'']
   \<and> scan_blocks (find_relevant_context True remdups ''Are emergency services covered by the plan?''
      (\<lambda>q. Inr [\<lparr>f_filename = Some ''B.pdf'', f_page_number = None,
                      f_content = Some ''Emergency services covered at all times.''\<rparr>])) = []"
  by code_simp

text \<open>
  Claim C10.  For a page whose page number is missing the markers of its block read
  \<open>Page: N/A\<close>; the block pattern does not match at that START marker (for a file name
  without comma); no block the scanner finds in any context has the page \<open>N/A\<close>, so the
  block is never the citation selected; and when no scanned block holds the quote, the
  verifier returns what it returns without any context: the raw evidence text, or the quote
  with the citation the model claimed.
\<close>

theorem C10_missing_page_never_cited:
  assumes "f_page_number d = None"
  shows "doc_page_num d = ''N/A''
    \<and> (block_text u ord question d \<noteq> [] \<longrightarrow>
          block_text u ord question d
            = block_lead u @ start_marker (doc_filename d) ''N/A'' @ ''\<newline>\<newline>''
                @ block_inner u ord question d
                @ end_marker (doc_filename d) ''N/A'' @ ''\<newline>\<newline>'')
    \<and> (CHR '','' \<notin> set (doc_filename d) \<longrightarrow>
          m_block (start_marker (doc_filename d) ''N/A'' @ rest) = None)
    \<and> (\<forall>x\<in>set (scan_blocks ctx). fst (snd x) \<noteq> ''N/A'')
    \<and> (status_match resp \<and> first_match m_evidence resp = Some g \<and> strip g \<noteq> []
         \<and> (\<forall>x\<in>set (scan_blocks ctx).
               \<not> contains (norm (quote_text_of (strip g))) (norm (snd (snd x)))) \<longrightarrow>
          parse_gemini_response resp ctx = parse_gemini_response resp []
          \<and> (snd (parse_gemini_response resp ctx) = strip g
               \<or> (\<exists>f p. first_match m_cite (strip g) = Some (f, p)
                     \<and> snd (parse_gemini_response resp ctx)
                         = fmt_evidence (strip f) (strip p) (quote_text_of (strip g)))))"
proof (intro conjI impI)
  show na: "doc_page_num d = ''N/A''"
    using assms by (simp add: doc_page_num_def)
  show "block_text u ord question d
            = block_lead u @ start_marker (doc_filename d) ''N/A'' @ ''\<newline>\<newline>''
                @ block_inner u ord question d
                @ end_marker (doc_filename d) ''N/A'' @ ''\<newline>\<newline>''"
    if "block_text u ord question d \<noteq> []"
    using block_text_shape [OF that] by (simp only: na)
  show "m_block (start_marker (doc_filename d) ''N/A'' @ rest) = None"
    if "CHR '','' \<notin> set (doc_filename d)"
    using that by (rule m_block_na)
  show "\<forall>x\<in>set (scan_blocks ctx). fst (snd x) \<noteq> ''N/A''"
  proof
    fix x assume "x \<in> set (scan_blocks ctx)"
    moreover obtain f p b where x: "x = (f, p, b)"
      by (cases x)
    ultimately have "(f, p, b) \<in> set (scan_blocks ctx)"
      by simp
    from scan_blocks_groups [OF this] show "fst (snd x) \<noteq> ''N/A''"
      by (auto simp: x is_digit_def)
  qed
next
  assume a: "status_match resp \<and> first_match m_evidence resp = Some g \<and> strip g \<noteq> []
         \<and> (\<forall>x\<in>set (scan_blocks ctx).
               \<not> contains (norm (quote_text_of (strip g))) (norm (snd (snd x))))"
  then have red: "rederive (quote_text_of (strip g)) ctx ff fp = (- 1, ff, fp)" for ff fp
    by (simp add: parse_no_hit)
  show same: "parse_gemini_response resp ctx = parse_gemini_response resp []"
    using a by (auto simp: parse_gemini_response_def Let_def red)
  show "snd (parse_gemini_response resp ctx) = strip g
               \<or> (\<exists>f p. first_match m_cite (strip g) = Some (f, p)
                     \<and> snd (parse_gemini_response resp ctx)
                         = fmt_evidence (strip f) (strip p) (quote_text_of (strip g)))"
    unfolding same using a parse_empty_context [of resp g]
    by (cases "first_match m_cite (strip g)") (auto split: if_splits)
qed

theorem C10_missing_page_never_cited_witness:
  "f_page_number \<lparr>f_filename = Some ''B.pdf'', f_page_number = None,
                   f_content = Some ''Claims are paid.''\<rparr> = None
   \<and> doc_page_num \<lparr>f_filename = Some ''B.pdf'', f_page_number = None,
                     f_content = Some ''Claims are paid.''\<rparr> = ''N/A''
   \<and> parse_gemini_response
        (''STATUS: Met\<newline>EVIDENCE: (From Filename: G.pdf, Page: 1) '' @ [dq] @ ''claims are paid'' @ [dq])
        ''--- START (Filename: B.pdf, Page: N/A) ---\<newline>\<newline>Claims are paid.\<newline>\<newline>--- END (Filename: B.pdf, Page: N/A) ---\<newline>\<newline>''
      = (''Met'', ''(From Filename: G.pdf, Page: 1) '' @ [dq] @ ''claims are paid'' @ [dq])"
proof -
  let ?d = "\<lparr>f_filename = Some ''B.pdf'', f_page_number = None, f_content = Some ''Claims are paid.''\<rparr>"
  let ?r = "''STATUS: Met\<newline>EVIDENCE: (From Filename: G.pdf, Page: 1) '' @ [dq] @ ''claims are paid'' @ [dq]"
  let ?g = "'' (From Filename: G.pdf, Page: 1) '' @ [dq] @ ''claims are paid'' @ [dq]"
  let ?c = "''--- START (Filename: B.pdf, Page: N/A) ---\<newline>\<newline>Claims are paid.\<newline>\<newline>--- END (Filename: B.pdf, Page: N/A) ---\<newline>\<newline>''"
  have h: "f_page_number ?d = None"
    by simp
  have p: "status_match ?r \<and> first_match m_evidence ?r = Some ?g \<and> strip ?g \<noteq> []
         \<and> (\<forall>x\<in>set (scan_blocks ?c).
               \<not> contains (norm (quote_text_of (strip ?g))) (norm (snd (snd x))))"
    by code_simp
  have e: "parse_gemini_response ?r []
      = (''Met'', ''(From Filename: G.pdf, Page: 1) '' @ [dq] @ ''claims are paid'' @ [dq])"
    by code_simp
  from C10_missing_page_never_cited [OF h, of True remdups "[]" "[]" ?c ?r ?g] p
  have "doc_page_num ?d = ''N/A''" and "parse_gemini_response ?r ?c = parse_gemini_response ?r []"
    by blast+
  with h e show ?thesis
    by simp
qed

text \<open>
  Claim C3 fails on the code.  The insertion order of the phrases and its reverse both
  enumerate the phrase set, and for this question and this stored page the two orders give
  different contexts: both windows are returned, in the order in which the set yields the
  two phrases that occur in the page.
\<close>

lemma set_orders_valid:
  "valid_set_order remdups xs" "valid_set_order (\<lambda>xs. rev (remdups xs)) xs"
  by (simp_all add: valid_set_order_def)

theorem C3_order_dependence:
  "find_relevant_context True remdups ''Emergency ambulance transport services?''
     (\<lambda>q. Inr [\<lparr>f_filename = Some ''A.pdf'', f_page_number = Some 3,
                  f_content = Some (''Emergency ambulance transport is covered.''
                     @ replicate 360 CHR ''.'' @ ''Other ambulance transport services need approval.'')\<rparr>])
   \<noteq> find_relevant_context True (\<lambda>xs. rev (remdups xs)) ''Emergency ambulance transport services?''
     (\<lambda>q. Inr [\<lparr>f_filename = Some ''A.pdf'', f_page_number = Some 3,
                  f_content = Some (''Emergency ambulance transport is covered.''
                     @ replicate 360 CHR ''.'' @ ''Other ambulance transport services need approval.'')\<rparr>])"
  by code_simp

section \<open>Properties of the segmenter\<close>

lemma dropWhile_snoc: "\<not> P c \<Longrightarrow> dropWhile P (t @ [c]) = dropWhile P t @ [c]"
  by (induction t) auto

lemma strip_snoc: "\<not> is_space c \<Longrightarrow> strip (t @ [c]) = dropWhile is_space t @ [c]"
  by (simp add: strip_def dropWhile_snoc)

lemma collapse_ws_snoc: "\<not> is_space c \<Longrightarrow> \<exists>u. collapse_ws (t @ [c]) = u @ [c]"
proof (induction t rule: collapse_ws.induct)
  case 1
  then show ?case by simp
next
  case (2 x cs)
  show ?case
  proof (cases "is_space x")
    case True
    with 2 obtain u where "collapse_ws (dropWhile is_space cs @ [c]) = u @ [c]"
      by blast
    with True 2(3) show ?thesis
      by (simp add: dropWhile_snoc)
  next
    case False
    with 2 obtain u where "collapse_ws (cs @ [c]) = u @ [c]"
      by blast
    with False show ?thesis by simp
  qed
qed

lemma join_append_last: "xs \<noteq> [] \<Longrightarrow> join sep (xs @ [l]) = join sep xs @ sep @ l"
  by (induction sep xs rule: join.induct) auto

lemma join_snoc: "\<exists>u. join sep (xs @ [t @ [c]]) = u @ [c]"
  by (cases "xs = []") (simp_all add: join_append_last)

lemma endswith_q: "endswith s ''?'' = (\<exists>t. s = t @ [CHR ''?''])"
  by (auto simp: endswith_def suffix_def)

lemma q_text_ends:
  assumes "endswith line ''?''"
  shows "endswith (q_text_of (cur @ [line])) ''?''"
proof -
  have ns: "\<not> is_space CHR ''?''"
    by (simp add: is_space_def)
  from assms obtain t where "line = t @ [CHR ''?'']"
    by (auto simp: endswith_q)
  with join_snoc [of "'' ''" cur t "CHR ''?''"] obtain u
    where "join '' '' (cur @ [line]) = u @ [CHR ''?'']" by auto
  then have "strip (join '' '' (cur @ [line])) = dropWhile is_space u @ [CHR ''?'']"
    by (simp add: strip_snoc ns)
  with collapse_ws_snoc [OF ns, of "dropWhile is_space u"] obtain v
    where "collapse_ws (strip (join '' '' (cur @ [line]))) = v @ [CHR ''?'']" by auto
  then have "q_text_of (cur @ [line]) = dropWhile is_space v @ [CHR ''?'']"
    by (simp add: q_text_of_def strip_snoc ns)
  then show ?thesis
    by (simp add: endswith_q)
qed

lemma segment_loop_questions:
  "\<forall>q\<in>set questions. is_question q \<Longrightarrow>
   \<forall>q\<in>set (segment_loop ls cur questions). is_question q"
proof (induction ls arbitrary: cur questions)
  case Nil
  then show ?case by simp
next
  case (Cons line ls)
  show ?case
  proof (cases "endswith line ''?''")
    case True
    let ?q = "q_text_of (cur @ [line])"
    have "\<forall>q\<in>set (if 4 < length (split_ws ?q) then questions @ [?q] else questions). is_question q"
      using Cons.prems True q_text_ends [OF True, of cur]
      by (auto simp: is_question_def intro!: exI [of _ "cur @ [line]"])
    from Cons.IH [OF this] True show ?thesis
      by (simp add: Let_def)
  next
    case False
    with Cons.IH [OF Cons.prems] show ?thesis
      by (simp add: Let_def)
  qed
qed

lemma segment_loop_no_mark:
  "\<forall>l\<in>set ls. \<not> endswith l ''?'' \<Longrightarrow> segment_loop ls cur questions = questions"
  by (induction ls arbitrary: cur) (simp_all add: Let_def)

lemma set_dehyphenate: "set (dehyphenate s) \<subseteq> set s"
proof (induction s rule: dehyphenate.induct)
  case 1
  then show ?case by simp
next
  case (2 c cs)
  have "set (dropWhile is_space cs) \<subseteq> set cs"
    by (rule set_dropWhileD [THEN subsetI])
  with 2 show ?case by auto
qed

lemma set_join_wrapped: "set (join_wrapped s) \<subseteq> insert CHR '' '' (set s)"
proof (induction s rule: join_wrapped.induct)
  case 1
  then show ?case by simp
next
  case (2 c cs)
  let ?rest = "dropWhile is_space cs"
  have r: "set ?rest \<subseteq> set cs"
    by (rule set_dropWhileD [THEN subsetI])
  show ?case
  proof (cases "(is_lower_az c \<or> c = CHR '','' \<or> c = CHR '';'') \<and> CHR ''\<newline>'' \<in> set (takeWhile is_space cs)
            \<and> ?rest \<noteq> [] \<and> is_lower_az (hd ?rest)")
    case True
    then have "?rest = hd ?rest # tl ?rest" by simp
    with r have "hd ?rest \<in> set cs" "set (tl ?rest) \<subseteq> set cs"
      by (metis list.set_intros(1) subsetD, metis list.set_intros(2) subsetD subsetI)
    with 2(1) [OF refl refl] True show ?thesis
      by (auto simp: Let_def)
  next
    case False
    with 2(2) [OF refl refl] show ?thesis
      by (auto simp: Let_def)
  qed
qed

lemma set_split_lines_all:
  "\<forall>l\<in>set (split_lines cur s). set l \<subseteq> set cur \<union> set s"
proof (induction s arbitrary: cur)
  case Nil
  then show ?case by simp
next
  case (Cons c s)
  show ?case
  proof (cases "c = CHR ''\<newline>''")
    case True
    with Cons [of "[]"] show ?thesis by auto
  next
    case False
    with Cons [of "cur @ [c]"] show ?thesis by auto
  qed
qed

lemma set_split_lines:
  "l \<in> set (split_lines cur s) \<Longrightarrow> set l \<subseteq> set cur \<union> set s"
  using set_split_lines_all by blast

lemma set_prefix_sub: "set (prefix_sub line) \<subseteq> set line"
proof -
  have d: "set (drop n xs) \<subseteq> set xs" for n and xs :: string
    by (rule set_drop_subset)
  have w: "set (dropWhile P xs) \<subseteq> set xs" for P and xs :: string
    by (rule set_dropWhileD [THEN subsetI])
  have "set rest \<subseteq> set r" if "prefix_alt r = Some rest" for r rest
    using that d w
    by (auto simp: prefix_alt_def Let_def split: if_splits
        dest!: in_set_dropD set_dropWhileD)
  then show ?thesis
    using w by (auto simp: prefix_sub_def split: option.splits dest!: set_dropWhileD)
qed

lemma set_strip: "set (strip s) \<subseteq> set s"
  by (auto simp: strip_def dest!: set_dropWhileD)

lemma cleaned_lines_chars:
  "l \<in> set (cleaned_lines_of full_text) \<Longrightarrow> set l \<subseteq> insert CHR '' '' (set full_text)"
proof -
  assume "l \<in> set (cleaned_lines_of full_text)"
  then obtain line where line: "line \<in> set (split_lines [] (join_wrapped (dehyphenate full_text)))"
    and l: "l = strip (prefix_sub line)"
    by (auto simp: cleaned_lines_of_def)
  from set_split_lines [OF line] set_join_wrapped [of "dehyphenate full_text"]
    set_dehyphenate [of full_text]
  have "set line \<subseteq> insert CHR '' '' (set full_text)" by auto
  with set_strip [of "prefix_sub line"] set_prefix_sub [of line] show ?thesis
    unfolding l by blast
qed

text \<open>
  Claim C6.  Every question that \<open>extract_questions_from_pdf\<close> returns ends with a question
  mark, has more than four words separated by white space, and is the joined and collapsed
  text of accumulated lines the last of which ends with a question mark; so a candidate of
  four words or fewer is not returned.  When no cleaned line ends with a question mark, and
  in particular when the extracted text holds no question mark, no question is returned.
\<close>

theorem C6_segmenter_questions:
  "(\<forall>q\<in>set (extract_questions_from_pdf file_stream).
      endswith q ''?'' \<and> 4 < length (split_ws q)
      \<and> (\<exists>cand. cand \<noteq> [] \<and> endswith (last cand) ''?'' \<and> q = q_text_of cand))
   \<and> (\<forall>pages. file_stream = Inr pages
         \<and> (\<forall>l\<in>set (cleaned_lines_of (full_text_of pages)). \<not> endswith l ''?'')
         \<longrightarrow> extract_questions_from_pdf file_stream = [])
   \<and> (\<forall>pages. file_stream = Inr pages \<and> CHR ''?'' \<notin> set (full_text_of pages)
         \<longrightarrow> extract_questions_from_pdf file_stream = [])"
proof (intro conjI allI impI)
  have "\<forall>q\<in>set (extract_questions_from_pdf file_stream). is_question q"
    using segment_loop_questions [of "[]"]
    by (auto simp: extract_questions_from_pdf_def Let_def split: sum.splits)
  then show "\<forall>q\<in>set (extract_questions_from_pdf file_stream).
      endswith q ''?'' \<and> 4 < length (split_ws q)
      \<and> (\<exists>cand. cand \<noteq> [] \<and> endswith (last cand) ''?'' \<and> q = q_text_of cand)"
    by (simp add: is_question_def)
next
  fix pages
  assume "file_stream = Inr pages
         \<and> (\<forall>l\<in>set (cleaned_lines_of (full_text_of pages)). \<not> endswith l ''?'')"
  then show "extract_questions_from_pdf file_stream = []"
    by (simp add: extract_questions_from_pdf_def Let_def segment_loop_no_mark)
next
  fix pages
  assume a: "file_stream = Inr pages \<and> CHR ''?'' \<notin> set (full_text_of pages)"
  have "\<forall>l\<in>set (cleaned_lines_of (full_text_of pages)). \<not> endswith l ''?''"
  proof
    fix l assume "l \<in> set (cleaned_lines_of (full_text_of pages))"
    from cleaned_lines_chars [OF this] a have "CHR ''?'' \<notin> set l" by auto
    then show "\<not> endswith l ''?''"
      by (auto simp: endswith_q)
  qed
  with a show "extract_questions_from_pdf file_stream = []"
    by (simp add: extract_questions_from_pdf_def Let_def segment_loop_no_mark)
qed

theorem C6_segmenter_questions_witness:
  "extract_questions_from_pdf (Inr [Some ''1. Does the policy require X?\<newline>2. Short?\<newline>''])
     = [''1. Does the policy require X?'']
   \<and> endswith ''1. Does the policy require X?'' ''?''
   \<and> 4 < length (split_ws ''1. Does the policy require X?'')"
proof -
  have v: "extract_questions_from_pdf (Inr [Some ''1. Does the policy require X?\<newline>2. Short?\<newline>''])
     = [''1. Does the policy require X?'']"
    by code_simp
  from C6_segmenter_questions [of "Inr [Some ''1. Does the policy require X?\<newline>2. Short?\<newline>'']"] v
  show ?thesis by simp
qed

section \<open>Properties of the orchestrator\<close>

lemma task_question [simp]:
  "v_question (analyze_single_question_task u ord gm db q) = q"
  by (auto simp: analyze_single_question_task_def split: sum.splits prod.splits)

text \<open>
  The verdicts are as many as the questions and in their order, each carries the text of its
  question and is the verdict of the task on that question alone.  An exception that leaves
  the pipeline of a question, here the lookup of the collection, becomes the verdict with
  status \<open>Error\<close>, the text of the question and the message after \<open>Analysis failed:\<close>.  A
  failure of the query of the store does not leave the pipeline: the assembler turns it into
  the context \<open>Error searching database.\<close>, as it is meant to.
\<close>

lemma batch_verdicts:
  "map v_question (analyze_questions u ord gm db questions) = questions
   \<and> length (analyze_questions u ord gm db questions) = length questions
   \<and> (\<forall>i<length questions.
         analyze_questions u ord gm db questions ! i
           = analyze_single_question_task u ord gm db (questions ! i))
   \<and> (\<forall>e g. db = Inl e \<and> gm = Some g \<longrightarrow>
         analyze_questions u ord gm db questions
           = map (\<lambda>q. \<lparr>v_question = q, v_status = ''Error'',
                        v_evidence = ''Analysis failed: '' @ e\<rparr>) questions)
   \<and> (\<forall>coll e q. db = Inr coll \<and> coll q = Inl e \<longrightarrow>
         find_relevant_context u ord q coll = ''Error searching database.'')"
proof (intro conjI allI impI)
  show "map v_question (analyze_questions u ord gm db questions) = questions"
    by (simp add: analyze_questions_def comp_def)
  show "length (analyze_questions u ord gm db questions) = length questions"
    by (simp add: analyze_questions_def)
  show "analyze_questions u ord gm db questions ! i
           = analyze_single_question_task u ord gm db (questions ! i)"
    if "i < length questions" for i
    using that by (simp add: analyze_questions_def)
  show "analyze_questions u ord gm db questions
           = map (\<lambda>q. \<lparr>v_question = q, v_status = ''Error'',
                        v_evidence = ''Analysis failed: '' @ e\<rparr>) questions"
    if "db = Inl e \<and> gm = Some g" for e g
    using that
    by (simp add: analyze_questions_def analyze_single_question_task_def
        analyze_question_with_gemini_def)
  show "find_relevant_context u ord q coll = ''Error searching database.''"
    if "db = Inr coll \<and> coll q = Inl e" for coll e q
    using that by (simp add: find_relevant_context_def)
qed

text \<open>
  An exception of the model call is caught in \<open>analyze_question_with_gemini\<close>, which
  returns its message after \<open>Error: Could not analyze question.\<close> as the response text.
  Whenever the status pattern does not match in that text, the verdict of the question is
  \<open>Not Met\<close> with the evidence \<open>N/A\<close>: the message is lost and the status is not
  \<open>Error\<close>.
\<close>

lemma model_failure_not_error:
  assumes "gm = Some generate_content"
    and "db = Inr coll"
    and "generate_content (prompt_of q (find_relevant_context u ord q coll)) = Inl e"
    and "\<not> status_match (''Error: Could not analyze question. '' @ e)"
  shows "analyze_single_question_task u ord gm db q
           = \<lparr>v_question = q, v_status = ''Not Met'', v_evidence = ''N/A''\<rparr>"
  using assms
  by (simp add: analyze_single_question_task_def analyze_question_with_gemini_def
      parse_gemini_response_def Let_def)

text \<open>
  Claim C7 fails on the code.  The model call raises for both questions of the batch; the
  two verdicts come in the order of the questions and carry their texts, but their status is
  \<open>Not Met\<close> and their evidence \<open>N/A\<close>, where the claim has the status \<open>Error\<close> and an
  error message.
\<close>

theorem C7_model_failure_verdict:
  "analyze_questions True remdups (Some (\<lambda>p. Inl ''429 quota exceeded'')) (Inr (\<lambda>q. Inr []))
     [''Does the plan cover emergency care?'', ''Are claims paid within thirty days?'']
   = [\<lparr>v_question = ''Does the plan cover emergency care?'', v_status = ''Not Met'',
        v_evidence = ''N/A''\<rparr>,
      \<lparr>v_question = ''Are claims paid within thirty days?'', v_status = ''Not Met'',
        v_evidence = ''N/A''\<rparr>]"
  by code_simp

end
